theory Spec2Isabelle
  imports Main "HOL-Library.Word"
begin

section \<open>Strings and patterns\<close>

text \<open>
  A JavaScript string is a sequence of 16-bit code units; \<open>length\<close> counts them and a
  pattern without the \<open>u\<close> flag matches them one at a time. The literals of the source
  are ASCII; \<open>U\<close> reads one of them as a string of code units.
\<close>

type_synonym cu = "16 word"
type_synonym jsstr = "cu list"

definition U :: "string \<Rightarrow> jsstr" where
  "U s = map of_char s"

text \<open>
  The character classes used by the five patterns of \<^verbatim>\<open>fireband.js\<close>: a literal
  character, \<^verbatim>\<open>[^c]\<close>, \<^verbatim>\<open>\d\<close>, \<^verbatim>\<open>\w\<close> and \<^verbatim>\<open>.\<close> (any code unit but the four line
  terminators LF, CR, U+2028, U+2029).
\<close>

datatype cls = Is cu | IsNot cu | Digit | WordChar | AnyChar

fun in_cls :: "cls \<Rightarrow> cu \<Rightarrow> bool" where
  "in_cls (Is a) c = (c = a)"
| "in_cls (IsNot a) c = (c \<noteq> a)"
| "in_cls Digit c = (0x30 \<le> c \<and> c \<le> 0x39)"
| "in_cls WordChar c =
     ((0x61 \<le> c \<and> c \<le> 0x7A) \<or> (0x41 \<le> c \<and> c \<le> 0x5A) \<or> (0x30 \<le> c \<and> c \<le> 0x39) \<or> c = 0x5F)"
| "in_cls AnyChar c = (c \<noteq> 0x0A \<and> c \<noteq> 0x0D \<and> c \<noteq> 0x2028 \<and> c \<noteq> 0x2029)"

text \<open>
  The fragment of the pattern language the source uses. \<open>Bol\<close> is \<^verbatim>\<open>^\<close>, \<open>Star\<close> and
  \<open>Plus\<close> are the greedy \<^verbatim>\<open>*\<close> and \<^verbatim>\<open>+\<close> (in the source they only ever follow a
  character class), \<open>Opt\<close> is the greedy \<^verbatim>\<open>?\<close>, \<open>Group n\<close> is the \<open>n\<close>-th capturing
  parenthesis; \<open>seqs\<close> puts patterns one after the other and \<open>lit\<close> is a literal string.
\<close>

datatype re =
    Empty
  | Bol
  | Atom cls
  | Star cls
  | Plus cls
  | Seq re re
  | Alt re re
  | Opt re
  | Group nat re

type_synonym captures = "nat \<Rightarrow> jsstr option"

text \<open>
  Backtracking matcher in continuation-passing style, as ECMAScript specifies it: the
  continuation \<open>k\<close> is the rest of the pattern, the position is the index \<open>i\<close> into the
  input and the code units from there on. A greedy quantifier first tries one more
  repetition and falls back on the continuation; an alternative tries its left branch
  with the continuation first.
\<close>

fun star :: "cls \<Rightarrow> (nat \<Rightarrow> jsstr \<Rightarrow> 'a option) \<Rightarrow> nat \<Rightarrow> jsstr \<Rightarrow> 'a option" where
  "star cl k i [] = k i []"
| "star cl k i (c # cs) =
     (if in_cls cl c
      then (case star cl k (Suc i) cs of Some r \<Rightarrow> Some r | None \<Rightarrow> k i (c # cs))
      else k i (c # cs))"

fun rmatch :: "re \<Rightarrow> (captures \<Rightarrow> nat \<Rightarrow> jsstr \<Rightarrow> 'a option) \<Rightarrow> captures \<Rightarrow> nat \<Rightarrow> jsstr \<Rightarrow> 'a option" where
  "rmatch Empty k caps i s = k caps i s"
| "rmatch Bol k caps i s = (if i = 0 then k caps i s else None)"
| "rmatch (Atom cl) k caps i s =
     (case s of [] \<Rightarrow> None | c # cs \<Rightarrow> if in_cls cl c then k caps (Suc i) cs else None)"
| "rmatch (Star cl) k caps i s = star cl (k caps) i s"
| "rmatch (Plus cl) k caps i s =
     (case s of [] \<Rightarrow> None | c # cs \<Rightarrow> if in_cls cl c then star cl (k caps) (Suc i) cs else None)"
| "rmatch (Seq a b) k caps i s = rmatch a (\<lambda>caps' j t. rmatch b k caps' j t) caps i s"
| "rmatch (Alt a b) k caps i s =
     (case rmatch a k caps i s of Some r \<Rightarrow> Some r | None \<Rightarrow> rmatch b k caps i s)"
| "rmatch (Opt a) k caps i s =
     (case rmatch a k caps i s of Some r \<Rightarrow> Some r | None \<Rightarrow> k caps i s)"
| "rmatch (Group n a) k caps i s =
     rmatch a (\<lambda>caps' j t. k (caps'(n \<mapsto> take (j - i) s)) j t) caps i s"

text \<open>
  \<^verbatim>\<open>String.prototype.match\<close> with a pattern without the \<open>g\<close> flag: the first start index,
  from 0 on, at which the pattern matches; the result is the captures (\<open>None\<close> for
  \<^verbatim>\<open>null\<close>; a capture that did not take part is \<^verbatim>\<open>undefined\<close>, here \<open>None\<close>).
\<close>

fun exec_from :: "re \<Rightarrow> nat \<Rightarrow> jsstr \<Rightarrow> captures option" where
  "exec_from r i [] = rmatch r (\<lambda>caps j t. Some caps) (\<lambda>n. None) i []"
| "exec_from r i (c # cs) =
     (case rmatch r (\<lambda>caps j t. Some caps) (\<lambda>n. None) i (c # cs) of
        Some caps \<Rightarrow> Some caps
      | None \<Rightarrow> exec_from r (Suc i) cs)"

definition match :: "jsstr \<Rightarrow> re \<Rightarrow> captures option" where
  "match s r = exec_from r 0 s"

definition seqs :: "re list \<Rightarrow> re" where
  "seqs rs = foldr Seq rs Empty"

definition lit :: "string \<Rightarrow> re" where
  "lit s = seqs (map (\<lambda>c. Atom (Is (of_char c))) s)"

definition TIME_OFFSET_REGEX :: re where
  \<open>TIME_OFFSET_REGEX =
     seqs [Bol, lit ''event: /.info/serverTimeOffset:value:'',
           Group 1 (Seq (Opt (Atom (Is (of_char CHR ''-'')))) (Plus Digit))]\<close>

definition LOG_REGEX :: re where
  \<open>LOG_REGEX =
     seqs [Bol, lit ''p:'', Plus Digit, lit '': '',
           Group 1 (Star (IsNot (of_char CHR ''{''))),
           Group 2 (Seq (Atom (Is (of_char CHR ''{''))) (Star AnyChar))]\<close>

definition READ_REGEX :: re where
  \<open>READ_REGEX =
     seqs [Bol, Group 1 (Alt (lit ''from server:'') (lit ''handleServerMessage'')), lit '' '',
           Group 2 (Star WordChar)]\<close>

definition READ_PATH_REGEX :: re where
  \<open>READ_PATH_REGEX =
     seqs [Bol, lit ''{"p":"'', Group 1 (Star (IsNot (of_char CHR ''"''))), lit ''"'']\<close>

definition WRITE_REGEX :: re where
  \<open>WRITE_REGEX =
     seqs [Bol, lit ''{"r":'', Plus Digit, lit '',"a":"'', Group 1 (Plus WordChar),
           lit ''","b":{'',
           Opt (Group 2 (Seq (lit ''"p":"'') (Group 3 (Plus (IsNot (of_char CHR ''"'')))))),
           lit ''"'']\<close>

section \<open>Numbers, dates and the process-wide state\<close>

text \<open>
  A JavaScript Number is a double. Every integer of magnitude up to \<open>2 ^ 53\<close> is a double,
  and sums of such integers that stay in that range are exact; \<open>Exact n\<close> is such an
  integer (\<open>-0\<close>, which \<^verbatim>\<open>parseInt("-0")\<close> returns, is \<open>Exact 0\<close>: it adds and compares
  like \<open>0\<close>). Beyond the range a result is rounded; the model does not follow the
  rounding and says \<open>Inexact\<close> for a Number it does not track.
\<close>

datatype number = Exact int | NaN | Inexact

definition to_number :: "int \<Rightarrow> number" where
  "to_number n = (if \<bar>n\<bar> \<le> 2 ^ 53 then Exact n else Inexact)"

fun add_num :: "number \<Rightarrow> number \<Rightarrow> number" where
  "add_num (Exact a) (Exact b) = to_number (a + b)"
| "add_num NaN y = NaN"
| "add_num x NaN = NaN"
| "add_num x y = Inexact"

text \<open>
  \<open>Quot a b\<close> is the double \<^verbatim>\<open>a / b\<close>: the division rounds to the nearest double, which
  the model keeps as the two operands.
\<close>

datatype quotient = Quot number int

text \<open>\<^verbatim>\<open>parseInt(s, 10)\<close>: leading white space, a sign, then the longest run of digits.\<close>

definition is_space :: "cu \<Rightarrow> bool" where
  "is_space c =
     (c \<in> {0x09, 0x0A, 0x0B, 0x0C, 0x0D, 0x20, 0xA0, 0x1680, 0x2028, 0x2029, 0x202F, 0x205F,
            0x3000, 0xFEFF} \<or> (0x2000 \<le> c \<and> c \<le> 0x200A))"

definition dec_value :: "jsstr \<Rightarrow> int" where
  "dec_value ds = foldl (\<lambda>v c. 10 * v + (uint c - 0x30)) 0 ds"

definition parseInt10 :: "jsstr \<Rightarrow> number" where
  "parseInt10 s =
     (let t = dropWhile is_space s;
          (neg, u) = (case t of [] \<Rightarrow> (False, [])
                      | c # cs \<Rightarrow> if c = 0x2D then (True, cs)
                                 else if c = 0x2B then (False, cs) else (False, t));
          ds = takeWhile (in_cls Digit) u
      in if ds = [] then NaN
         else to_number (if neg then - dec_value ds else dec_value ds))"

text \<open>Number to string, for the integers the source concatenates to the table name.\<close>

fun show_nat :: "nat \<Rightarrow> jsstr" where
  "show_nat n = (if n < 10 then [0x30 + of_nat n] else show_nat (n div 10) @ [0x30 + of_nat (n mod 10)])"

declare show_nat.simps [simp del]

definition show_int :: "int \<Rightarrow> jsstr" where
  "show_int n = (if n < 0 then 0x2D # show_nat (nat (- n)) else show_nat (nat n))"

text \<open>
  The UTC calendar fields of a time value \<open>t\<close> in milliseconds since the epoch:
  the day number is \<open>\<lfloor>t / 86400000\<rfloor>\<close>, and year, month (0 to 11) and day of the
  month (1 to 31) are those of the proleptic Gregorian calendar.
\<close>

definition civil :: "int \<Rightarrow> int \<times> int \<times> int" where
  "civil t =
     (let z = t div 86400000 + 719468;
          era = z div 146097;
          doe = z - era * 146097;
          yoe = (doe - doe div 1460 + doe div 36524 - doe div 146096) div 365;
          doy = doe - (365 * yoe + yoe div 4 - yoe div 100);
          mp = (5 * doy + 2) div 153;
          d = doy - (153 * mp + 2) div 5 + 1;
          m = (if mp < 10 then mp + 3 else mp - 9);
          y = yoe + era * 400 + (if m \<le> 2 then 1 else 0)
      in (y, m - 1, d))"

definition getUTCFullYear :: "int \<Rightarrow> int" where
  "getUTCFullYear t = fst (civil t)"

definition getUTCMonth :: "int \<Rightarrow> int" where
  "getUTCMonth t = fst (snd (civil t))"

definition getUTCDate :: "int \<Rightarrow> int" where
  "getUTCDate t = snd (snd (civil t))"

text \<open>
  A row is the object the parsing functions build: \<^verbatim>\<open>op\<close> and \<^verbatim>\<open>size\<close> from the start,
  \<^verbatim>\<open>path\<close>, \<^verbatim>\<open>time\<close> and \<^verbatim>\<open>tag\<close> once they are assigned (\<open>None\<close>: the property is absent).
\<close>

record row =
  op :: jsstr
  size' :: nat
  path :: "jsstr option"
  time :: "quotient option"
  tag :: "jsstr option"

datatype fault = TypeError

datatype jsval = S jsstr | N int | Undefined | Stack fault

type_synonym addr = nat

text \<open>
  Everything outside a collector object: the two module-level variables
  \<^verbatim>\<open>lastFlushTimestamp\<close> and \<^verbatim>\<open>serverTimeOffset\<close>; the clock (\<^verbatim>\<open>Date.now()\<close> and
  \<^verbatim>\<open>new Date()\<close> return \<open>clock\<close> at the number of readings made so far); the arrays on
  the heap, by address, since \<^verbatim>\<open>push\<close> updates an array in place and the sink keeps a
  reference to the array it was given; the lines written by \<^verbatim>\<open>console.log\<close>; and the
  calls of the sink's \<^verbatim>\<open>insert\<close>, each with the dataset, the table name and the address
  of the array of rows. The sink's calls are taken not to throw; what the sink reports
  later goes to a callback that only writes to the console.
\<close>

record world =
  lastFlushTimestamp :: int
  serverTimeOffset :: number
  clock :: "nat \<Rightarrow> int"
  reads :: nat
  heap :: "addr \<Rightarrow> row list"
  next_addr :: addr
  console :: "jsval list list"
  inserts :: "(jsstr \<times> jsstr \<times> addr) list"

definition Date_now :: "world \<Rightarrow> int \<times> world" where
  "Date_now w = (clock w (reads w), w\<lparr>reads := Suc (reads w)\<rparr>)"

definition console_log :: "jsval list \<Rightarrow> world \<Rightarrow> world" where
  "console_log args w = w\<lparr>console := console w @ [args]\<rparr>"

definition new_array :: "world \<Rightarrow> addr \<times> world" where
  "new_array w =
     (next_addr w, w\<lparr>heap := (heap w)(next_addr w := []), next_addr := Suc (next_addr w)\<rparr>)"

definition array_push :: "addr \<Rightarrow> row \<Rightarrow> world \<Rightarrow> world" where
  "array_push a r w = w\<lparr>heap := (heap w)(a := heap w a @ [r])\<rparr>"

definition table_insert :: "jsstr \<Rightarrow> jsstr \<Rightarrow> addr \<Rightarrow> world \<Rightarrow> world" where
  "table_insert dataset tableName rows w = w\<lparr>inserts := inserts w @ [(dataset, tableName, rows)]\<rparr>"

section \<open>The collector\<close>

record options =
  datasetId :: jsstr
  tablePrefix :: jsstr
  opt_tag :: "jsstr option"
  sizeFlushThreshold :: int
  forcedFlushInterval :: int

record collector =
  options :: options
  data :: addr
  dataSize :: nat

definition PROTOCOL_PATH :: jsstr where
  "PROTOCOL_PATH = U ''/$protocol''"

definition DEBUG_PATH :: jsstr where
  "DEBUG_PATH = U ''/$debug''"

text \<open>A string is truthy when it is there and not empty.\<close>

fun truthy :: "jsstr option \<Rightarrow> bool" where
  "truthy None = False"
| "truthy (Some s) = (s \<noteq> [])"

text \<open>
  \<^verbatim>\<open>_parseReadMessage\<close>. \<open>read_messageType\<close> is the source's
  \<^verbatim>\<open>details[1] === 'from server: ' ? '' : details[2]\<close>, the literal with its trailing
  space, and \<open>read_size\<close> its
  \<^verbatim>\<open>value.length + 16 + (messageType ? 7 + messageType.length : 0)\<close>. The result is the
  row, or \<open>None\<close> for the source's bare \<^verbatim>\<open>return\<close>.
\<close>

definition read_messageType :: "captures \<Rightarrow> jsstr option" where
  "read_messageType details =
     (if details 1 = Some (U ''from server: '') then Some [] else details 2)"

definition read_size :: "jsstr option \<Rightarrow> jsstr \<Rightarrow> nat" where
  "read_size messageType v =
     length v + 16 + (case messageType of None \<Rightarrow> 0
                      | Some t \<Rightarrow> if t \<noteq> [] then 7 + length t else 0)"

definition parseReadMessage :: "jsstr \<Rightarrow> jsstr \<Rightarrow> world \<Rightarrow> row option \<times> world" where
  \<open>parseReadMessage prefix v w =
     (case match prefix READ_REGEX of
        None \<Rightarrow> (None, w)
      | Some details \<Rightarrow>
          let messageType = read_messageType details;
              r = \<lparr>op = U ''r'', size' = read_size messageType v,
                   path = None, time = None, tag = None\<rparr>
          in if messageType = Some (U ''d'') \<or> messageType = Some (U ''m'') then
               (case match v READ_PATH_REGEX of
                  None \<Rightarrow> (None, console_log [S (U ''No path found in message:''), S prefix, S v] w)
                | Some pathDetails \<Rightarrow>
                    (Some (r\<lparr>path := Some (of_char CHR ''/'' #
                              (case pathDetails 1 of Some p \<Rightarrow> p | None \<Rightarrow> U ''undefined''))\<rparr>), w))
             else if messageType = Some [] then (Some (r\<lparr>path := Some PROTOCOL_PATH\<rparr>), w)
             else if messageType = Some (U ''sd'') then (Some (r\<lparr>path := Some DEBUG_PATH\<rparr>), w)
             else (None, console_log [S (U ''Unknown write type:''),
                                      (case messageType of Some t \<Rightarrow> S t | None \<Rightarrow> Undefined)] w))\<close>

text \<open>
  \<^verbatim>\<open>_parseWriteMessage\<close>. The source reads \<^verbatim>\<open>details[1]\<close> and \<^verbatim>\<open>details[3]\<close> on the line
  before it tests \<^verbatim>\<open>!details\<close>; on \<^verbatim>\<open>null\<close> the read throws a \<^verbatim>\<open>TypeError\<close>, with
  nothing written to the console yet. \<^verbatim>\<open>!path\<close> holds for \<^verbatim>\<open>undefined\<close> and for the
  empty string.
\<close>

definition parseWriteMessage :: "jsstr \<Rightarrow> world \<Rightarrow> fault + (row option \<times> world)" where
  \<open>parseWriteMessage v w =
     (case match v WRITE_REGEX of
        None \<Rightarrow> Inl TypeError
      | Some details \<Rightarrow>
          let messageType = details 1; p = details 3;
              r = \<lparr>op = U ''w'', size' = length v + 16, path = None, time = None, tag = None\<rparr>
          in if messageType = Some (U ''m'') \<or> messageType = Some (U ''p'') then
               (if \<not> truthy p
                then Inr (None, console_log [S (U ''No path found in message:''), S v] w)
                else Inr (Some (r\<lparr>path := p\<rparr>), w))
             else if messageType = Some (U ''q'') \<or> messageType = Some (U ''l'')
                     \<or> messageType = Some (U ''n'') \<or> messageType = Some (U ''auth'')
                     \<or> messageType = Some (U ''s'')
             then Inr (Some (r\<lparr>path := Some PROTOCOL_PATH\<rparr>), w)
             else Inr (None, console_log [S (U ''Unknown write type:''),
                                          (case messageType of Some t \<Rightarrow> S t | None \<Rightarrow> Undefined)] w))\<close>

text \<open>
  \<^verbatim>\<open>_takeData\<close>: the collector gets a fresh empty array and size 0, the caller the
  array that was there.
\<close>

definition takeData :: "collector \<Rightarrow> world \<Rightarrow> addr \<times> collector \<times> world" where
  "takeData c w =
     (let d = data c; (a, w1) = new_array w
      in (d, c\<lparr>data := a, dataSize := 0\<rparr>, w1))"

definition tableName_of :: "options \<Rightarrow> int \<Rightarrow> jsstr" where
  "tableName_of opts date =
     tablePrefix opts @ show_int (getUTCFullYear date) @ show_int (getUTCMonth date + 1)
       @ show_int (getUTCDate date)"

definition flush :: "collector \<Rightarrow> world \<Rightarrow> collector \<times> world" where
  \<open>flush c w =
     (let (now, w1) = Date_now w;
          w2 = w1\<lparr>lastFlushTimestamp := now\<rparr>
      in if length (heap w2 (data c)) = 0 then (c, w2)
         else
           let (date, w3) = Date_now w2;
               tableName = tableName_of (options c) date;
               (rows, c1, w4) = takeData c w3;
               w5 = console_log [S (U ''Flushing''), N (int (length (heap w4 rows))),
                                 S (U ''rows of bandwidth data to BigQuery table''), S tableName] w4
           in (c1, table_insert (datasetId (options c)) tableName rows w5))\<close>

definition pushRow :: "row \<Rightarrow> collector \<Rightarrow> world \<Rightarrow> collector \<times> world" where
  "pushRow r c w =
     (let w1 = array_push (data c) r w;
          c1 = c\<lparr>dataSize := dataSize c + size' r\<rparr>
      in if int (dataSize c1) \<ge> sizeFlushThreshold (options c1) then flush c1 w1 else (c1, w1))"

text \<open>\<^verbatim>\<open>flushIfLate\<close>; nothing in its \<^verbatim>\<open>try\<close> block throws.\<close>

definition flushIfLate :: "collector \<Rightarrow> world \<Rightarrow> collector \<times> world" where
  "flushIfLate c w =
     (let (now, w1) = Date_now w
      in if now - lastFlushTimestamp w1 \<ge> forcedFlushInterval (options c) then flush c w1
         else (c, w1))"

text \<open>
  The \<^verbatim>\<open>try\<close> block of \<^verbatim>\<open>_collectLog\<close>. \<open>parse_row\<close> is its
  \<^verbatim>\<open>prefix ? this._parseReadMessage(prefix, value) : this._parseWriteMessage(value)\<close>
  on the captures \<open>m\<close> of \<open>LOG_REGEX\<close>, and \<open>stamp\<close> the two assignments to \<^verbatim>\<open>row.time\<close>
  and \<^verbatim>\<open>row.tag\<close>. Both captures of \<open>LOG_REGEX\<close> take part in every match
  (\<open>LOG_REGEX_groups\<close> below), so \<^verbatim>\<open>prefix\<close> and \<^verbatim>\<open>value\<close> are strings; the branches for
  an \<^verbatim>\<open>undefined\<close> capture are never taken (the two parsing functions would throw on
  the \<^verbatim>\<open>length\<close> or \<^verbatim>\<open>match\<close> of an \<^verbatim>\<open>undefined\<close> \<^verbatim>\<open>value\<close>).
\<close>

definition stamp :: "row \<Rightarrow> collector \<Rightarrow> int \<Rightarrow> world \<Rightarrow> row" where
  "stamp r c now w =
     (let r1 = r\<lparr>time := Some (Quot (add_num (to_number now) (serverTimeOffset w)) 1000)\<rparr>
      in if truthy (opt_tag (options c)) then r1\<lparr>tag := opt_tag (options c)\<rparr> else r1)"

definition parse_row :: "captures \<Rightarrow> world \<Rightarrow> fault + (row option \<times> world)" where
  "parse_row m w =
     (case m 2 of
        None \<Rightarrow> Inl TypeError
      | Some v \<Rightarrow>
          (case m 1 of
             None \<Rightarrow> parseWriteMessage v w
           | Some prefix \<Rightarrow>
               if prefix \<noteq> [] then Inr (parseReadMessage prefix v w)
               else parseWriteMessage v w))"

definition collectLog_try :: "jsstr \<Rightarrow> collector \<Rightarrow> world \<Rightarrow> fault + (collector \<times> world)" where
  "collectLog_try message c w =
     (case match message LOG_REGEX of
        None \<Rightarrow>
          (case match message TIME_OFFSET_REGEX of
             None \<Rightarrow> Inr (c, w)
           | Some m \<Rightarrow>
               Inr (c, w\<lparr>serverTimeOffset :=
                            (case m 1 of Some t \<Rightarrow> parseInt10 t | None \<Rightarrow> NaN)\<rparr>))
      | Some m \<Rightarrow>
          (case parse_row m w of
             Inl e \<Rightarrow> Inl e
           | Inr (None, w1) \<Rightarrow> Inr (c, w1)
           | Inr (Some r, w1) \<Rightarrow>
               let (now, w2) = Date_now w1
               in Inr (pushRow (stamp r c now w2) c w2)))"

text \<open>
  \<^verbatim>\<open>_collectLog\<close>, the callback handed to the log subscription: the \<^verbatim>\<open>try\<close> block, and
  the \<^verbatim>\<open>catch\<close> that writes the fault to the console. \<open>Inl\<close> would be a fault that
  leaves the callback.
\<close>

definition collectLog :: "jsstr \<Rightarrow> collector \<Rightarrow> world \<Rightarrow> fault + (collector \<times> world)" where
  "collectLog message c w =
     (case collectLog_try message c w of
        Inl e \<Rightarrow>
          Inr (c, console_log [S (U ''Unexpected error while collecting Firebase bandwidth:''),
                               Stack e] w)
      | Inr cw \<Rightarrow> Inr cw)"

text \<open>
  The constructor: \<^verbatim>\<open>_takeData\<close> on the new object gives it its first array. The timer
  it starts calls \<open>flushIfLate\<close> from outside, like the log subscription calls
  \<open>collectLog\<close>.
\<close>

definition BandwidthCollector :: "options \<Rightarrow> world \<Rightarrow> collector \<times> world" where
  "BandwidthCollector opts w =
     (let (a, w1) = new_array w in (\<lparr>options = opts, data = a, dataSize = 0\<rparr>, w1))"

section \<open>Runs and observations\<close>

text \<open>
  The process starts with both module-level variables 0, no array and nothing written;
  the clock is the environment's.
\<close>

definition start :: "(nat \<Rightarrow> int) \<Rightarrow> world" where
  "start clk =
     \<lparr>lastFlushTimestamp = 0, serverTimeOffset = Exact 0, clock = clk, reads = 0,
      heap = (\<lambda>a. []), next_addr = 0, console = [], inserts = []\<rparr>"

text \<open>
  What a collector holds and what the sink was given: the pending rows are the array
  \<^verbatim>\<open>_data\<close> refers to; a batch is an array passed to \<^verbatim>\<open>insert\<close>, read through its
  address, so that a later \<^verbatim>\<open>push\<close> on the same array would show in it.
\<close>

definition pending :: "collector \<Rightarrow> world \<Rightarrow> row list" where
  "pending c w = heap w (data c)"

definition batches :: "world \<Rightarrow> row list list" where
  "batches w = map (\<lambda>(d, t, a). heap w a) (inserts w)"

text \<open>
  The arrays in use are allocated, and no array given to the sink is the collector's
  current one.
\<close>

definition separate :: "collector \<Rightarrow> world \<Rightarrow> bool" where
  "separate c w =
     (data c < next_addr w \<and> list_all (\<lambda>(d, t, a). a < next_addr w \<and> a \<noteq> data c) (inserts w))"

fun pushRows :: "row list \<Rightarrow> collector \<Rightarrow> world \<Rightarrow> collector \<times> world" where
  "pushRows [] c w = (c, w)"
| "pushRows (r # rs) c w = (case pushRow r c w of (c1, w1) \<Rightarrow> pushRows rs c1 w1)"

text \<open>
  What reaches a collector from outside: a line of the log, or a tick of its timer.
  A fault that left \<open>collectLog\<close> would end the run.
\<close>

datatype event = Line jsstr | Tick

fun run :: "event list \<Rightarrow> collector \<Rightarrow> world \<Rightarrow> fault + (collector \<times> world)" where
  "run [] c w = Inr (c, w)"
| "run (Line l # es) c w =
     (case collectLog l c w of Inl e \<Rightarrow> Inl e | Inr (c1, w1) \<Rightarrow> run es c1 w1)"
| "run (Tick # es) c w = (case flushIfLate c w of (c1, w1) \<Rightarrow> run es c1 w1)"

text \<open>
  A line that \<open>collectLog\<close> takes as a report of the server's time offset: not a log
  record, and matching the offset pattern.
\<close>

definition offset_line :: "jsstr \<Rightarrow> bool" where
  "offset_line l = (match l LOG_REGEX = None \<and> match l TIME_OFFSET_REGEX \<noteq> None)"

section \<open>A sample configuration\<close>

text \<open>
  A collector with a threshold of 100 bytes and a forced-flush interval of one minute,
  created at process start under a clock that advances one second between readings;
  and a second collector created after it in the same process, into which one row of 50
  bytes has been pushed.
\<close>

definition sample_options :: options where
  "sample_options =
     \<lparr>datasetId = U ''bandwidth'', tablePrefix = U ''raw'', opt_tag = Some (U ''web''),
      sizeFlushThreshold = 100, forcedFlushInterval = 60000\<rparr>"

definition sample_clock :: "nat \<Rightarrow> int" where
  "sample_clock k = 1793698200000 + 1000 * int k"

definition sample_row :: row where
  "sample_row =
     \<lparr>op = U ''r'', size' = 50, path = Some (U ''/a''),
      time = Some (Quot (Exact 1793698200000) 1000), tag = Some (U ''web'')\<rparr>"

definition fresh :: "collector \<times> world" where
  "fresh = BandwidthCollector sample_options (start sample_clock)"

definition loaded :: "collector \<times> world" where
  "loaded =
     (case BandwidthCollector sample_options (snd fresh) of (c, w) \<Rightarrow> pushRow sample_row c w)"

section \<open>The matcher on the patterns of the source\<close>

lemma lit_Nil: "lit [] = Empty"
  by (simp add: lit_def seqs_def)

lemma lit_Cons: "lit (c # s) = Seq (Atom (Is (of_char c))) (lit s)"
  by (simp add: lit_def seqs_def)

lemma rmatch_lit:
  "rmatch (lit s) k caps i t =
     (if take (length s) t = map of_char s then k caps (i + length s) (drop (length s) t) else None)"
proof (induction s arbitrary: i t)
  case Nil
  then show ?case by (simp add: lit_Nil)
next
  case (Cons c s)
  show ?case
  proof (cases t)
    case Nil
    then show ?thesis by (simp add: lit_Cons)
  next
    case (Cons x xs)
    then show ?thesis using Cons.IH [of "Suc i" xs] by (simp add: lit_Cons)
  qed
qed

lemma exec_from_Bol: "exec_from (Seq Bol r) (Suc i) s = None"
  by (induction s arbitrary: i) simp_all

lemma match_anchored:
  "match s (Seq Bol r) = rmatch r (\<lambda>caps j t. Some caps) (\<lambda>n. None) 0 s"
  by (cases s) (simp_all add: match_def exec_from_Bol split: option.splits)

lemma star_Some:
  "star cl k i s = Some r \<Longrightarrow>
   \<exists>n\<le>length s. k (i + n) (drop n s) = Some r \<and> (\<forall>c\<in>set (take n s). in_cls cl c)"
proof (induction s arbitrary: i)
  case Nil
  then show ?case by simp
next
  case (Cons c cs)
  show ?case
  proof (cases "in_cls cl c \<and> star cl k (Suc i) cs \<noteq> None")
    case True
    then have "star cl k (Suc i) cs = Some r" using Cons.prems by auto
    from Cons.IH [OF this] obtain n where
      n: "n \<le> length cs" "k (Suc i + n) (drop n cs) = Some r" "\<forall>c\<in>set (take n cs). in_cls cl c"
      by blast
    show ?thesis
      by (rule exI [of _ "Suc n"]) (use n True in simp)
  next
    case False
    then have "k i (c # cs) = Some r" using Cons.prems by (auto split: if_splits option.splits)
    then show ?thesis by (intro exI [of _ 0]) simp
  qed
qed

lemma star_greedy:
  assumes "\<forall>c\<in>set ds. in_cls cl c" and "rest = [] \<or> \<not> in_cls cl (hd rest)"
    and "k (i + length ds) rest \<noteq> None"
  shows "star cl k i (ds @ rest) = k (i + length ds) rest"
  using assms
proof (induction ds arbitrary: i)
  case Nil
  then show ?case by (cases rest) auto
next
  case (Cons d ds)
  have "star cl k (Suc i) (ds @ rest) = k (Suc i + length ds) rest"
    using Cons.prems by (intro Cons.IH) auto
  then show ?case using Cons.prems by (auto split: option.splits)
qed

lemma READ_REGEX_group1:
  assumes "match prefix READ_REGEX = Some details"
  shows "details 1 = Some (U ''from server:'') \<or> details 1 = Some (U ''handleServerMessage'')"
  using assms
  by (auto simp: READ_REGEX_def seqs_def match_anchored rmatch_lit U_def
           split: if_splits option.splits dest!: star_Some)

lemma read_messageType_is_group2:
  assumes "match prefix READ_REGEX = Some details"
  shows "read_messageType details = details 2"
  using READ_REGEX_group1 [OF assms] by (auto simp: read_messageType_def U_def)

lemma LOG_REGEX_groups:
  assumes "match line LOG_REGEX = Some m"
  shows "m 1 \<noteq> None \<and> m 2 \<noteq> None"
  using assms
  by (auto simp: LOG_REGEX_def seqs_def match_anchored rmatch_lit U_def
           split: if_splits option.splits list.splits dest!: star_Some)

lemma rmatch_lit_U:
  "rmatch (lit s) k caps i (U s @ t) = k caps (i + length s) t"
  by (simp add: rmatch_lit U_def)

lemma digit_not_minus: "in_cls Digit d \<Longrightarrow> d \<noteq> 0x2D"
  by auto

lemma digit_not_plus: "in_cls Digit d \<Longrightarrow> d \<noteq> 0x2B"
  by auto

lemma digit_not_space: "in_cls Digit d \<Longrightarrow> \<not> is_space d"
  by (auto simp: is_space_def word_le_nat_alt)

lemma LOG_REGEX_no_event:
  "match (U ''event: /.info/serverTimeOffset:value:'' @ t) LOG_REGEX = None"
  by (simp add: LOG_REGEX_def seqs_def match_anchored rmatch_lit U_def)

lemma plus_greedy:
  assumes "ds \<noteq> []" and "\<forall>d\<in>set ds. in_cls cl d" and "rest = [] \<or> \<not> in_cls cl (hd rest)"
    and "k caps (i + length ds) rest \<noteq> None"
  shows "rmatch (Plus cl) k caps i (ds @ rest) = k caps (i + length ds) rest"
proof -
  obtain d ds' where ds: "ds = d # ds'" using assms(1) by (cases ds) auto
  have d: "in_cls cl d" and ds': "\<forall>d\<in>set ds'. in_cls cl d" using assms(2) ds by auto
  have "star cl (k caps) (Suc i) (ds' @ rest) = k caps (Suc i + length ds') rest"
    using assms(4) by (intro star_greedy [OF ds' assms(3)]) (simp add: ds)
  then show ?thesis using d by (simp add: ds)
qed

lemma signed_digits:
  assumes "ds \<noteq> []" and "\<forall>d\<in>set ds. in_cls Digit d" and "rest = [] \<or> \<not> in_cls Digit (hd rest)"
    and k: "\<And>c j t. k c j t \<noteq> None"
  shows "rmatch (Group g (Seq (Opt (Atom (Is 0x2D))) (Plus Digit))) k caps i (ds @ rest)
           = k (caps(g \<mapsto> ds)) (i + length ds) rest"
    and "rmatch (Group g (Seq (Opt (Atom (Is 0x2D))) (Plus Digit))) k caps i (0x2D # ds @ rest)
           = k (caps(g \<mapsto> 0x2D # ds)) (Suc (i + length ds)) rest"
proof -
  obtain d ds' where ds: "ds = d # ds'" using assms(1) by (cases ds) auto
  have nm: "d \<noteq> 0x2D" using assms(2) ds by (intro digit_not_minus) simp
  let ?s = "ds @ rest"
  let ?k = "\<lambda>caps' j t. k (caps'(g \<mapsto> take (j - i) ?s)) j t"
  have "rmatch (Plus Digit) ?k caps i (ds @ rest) = ?k caps (i + length ds) rest"
    by (rule plus_greedy [OF assms(1-3)]) (simp add: k)
  then show "rmatch (Group g (Seq (Opt (Atom (Is 0x2D))) (Plus Digit))) k caps i (ds @ rest)
           = k (caps(g \<mapsto> ds)) (i + length ds) rest"
    using nm by (simp add: ds)
  let ?s' = "0x2D # ds @ rest"
  let ?k' = "\<lambda>caps' j t. k (caps'(g \<mapsto> take (j - i) ?s')) j t"
  have "rmatch (Plus Digit) ?k' caps (Suc i) (ds @ rest) = ?k' caps (Suc i + length ds) rest"
    by (rule plus_greedy [OF assms(1-3)]) (simp add: k)
  then show "rmatch (Group g (Seq (Opt (Atom (Is 0x2D))) (Plus Digit))) k caps i (0x2D # ds @ rest)
           = k (caps(g \<mapsto> 0x2D # ds)) (Suc (i + length ds)) rest"
    using k by (simp split: option.splits)
qed

lemma TIME_OFFSET_digits:
  assumes "ds \<noteq> []" and "\<forall>d\<in>set ds. in_cls Digit d" and "rest = [] \<or> \<not> in_cls Digit (hd rest)"
  shows "match (U ''event: /.info/serverTimeOffset:value:'' @ ds @ rest) TIME_OFFSET_REGEX
           = Some ((\<lambda>n. None)(1 \<mapsto> ds))"
    and "match (U ''event: /.info/serverTimeOffset:value:'' @ 0x2D # ds @ rest) TIME_OFFSET_REGEX
           = Some ((\<lambda>n. None)(1 \<mapsto> 0x2D # ds))"
proof -
  have k: "rmatch Empty (\<lambda>caps j t. Some caps) c j t \<noteq> None" for c :: captures and j t
    by simp
  show "match (U ''event: /.info/serverTimeOffset:value:'' @ ds @ rest) TIME_OFFSET_REGEX
           = Some ((\<lambda>n. None)(1 \<mapsto> ds))"
    using signed_digits(1) [OF assms, of "rmatch Empty (\<lambda>caps j t. Some caps)", OF k]
    by (simp add: TIME_OFFSET_REGEX_def seqs_def match_anchored rmatch_lit_U
               del: rmatch.simps(9))
  show "match (U ''event: /.info/serverTimeOffset:value:'' @ 0x2D # ds @ rest) TIME_OFFSET_REGEX
           = Some ((\<lambda>n. None)(1 \<mapsto> 0x2D # ds))"
    using signed_digits(2) [OF assms, of "rmatch Empty (\<lambda>caps j t. Some caps)", OF k]
    by (simp add: TIME_OFFSET_REGEX_def seqs_def match_anchored rmatch_lit_U
               del: rmatch.simps(9))
qed

lemma parseInt10_digits:
  assumes "ds \<noteq> []" and "\<forall>d\<in>set ds. in_cls Digit d"
  shows "parseInt10 ds = to_number (dec_value ds)"
    and "parseInt10 (0x2D # ds) = to_number (- dec_value ds)"
proof -
  obtain d ds' where ds: "ds = d # ds'" using assms(1) by (cases ds) auto
  have d: "in_cls Digit d" using assms(2) ds by auto
  have tw: "takeWhile (in_cls Digit) (d # ds') = d # ds'"
    using assms(2) ds by (simp add: takeWhile_eq_all_conv)
  show "parseInt10 ds = to_number (dec_value ds)"
    using digit_not_space [OF d] digit_not_minus [OF d] digit_not_plus [OF d]
    by (simp add: parseInt10_def ds tw Let_def del: in_cls.simps takeWhile.simps)
  have "\<not> is_space 0x2D" by (simp add: is_space_def)
  then show "parseInt10 (0x2D # ds) = to_number (- dec_value ds)"
    by (simp add: parseInt10_def ds tw Let_def del: in_cls.simps takeWhile.simps)
qed

lemma collectLog_offset:
  assumes "ds \<noteq> []" and "\<forall>d\<in>set ds. in_cls Digit d" and "rest = [] \<or> \<not> in_cls Digit (hd rest)"
  shows "collectLog (U ''event: /.info/serverTimeOffset:value:'' @ ds @ rest) c w
           = Inr (c, w\<lparr>serverTimeOffset := to_number (dec_value ds)\<rparr>)"
    and "collectLog (U ''event: /.info/serverTimeOffset:value:'' @ 0x2D # ds @ rest) c w
           = Inr (c, w\<lparr>serverTimeOffset := to_number (- dec_value ds)\<rparr>)"
  using TIME_OFFSET_digits [OF assms] parseInt10_digits [OF assms(1,2)]
  by (simp_all add: collectLog_def collectLog_try_def LOG_REGEX_no_event)

section \<open>Buffer and sink\<close>

lemma flush_empty:
  "heap w (data c) = [] \<Longrightarrow>
   flush c w = (c, w\<lparr>lastFlushTimestamp := clock w (reads w), reads := Suc (reads w)\<rparr>)"
  by (simp add: flush_def Date_now_def)

lemma flush_nonempty:
  "heap w (data c) \<noteq> [] \<Longrightarrow> data c \<noteq> next_addr w \<Longrightarrow>
   flush c w =
     (c\<lparr>data := next_addr w, dataSize := 0\<rparr>,
      table_insert (datasetId (options c)) (tableName_of (options c) (clock w (Suc (reads w)))) (data c)
        (console_log [S (U ''Flushing''), N (int (length (heap w (data c)))),
                      S (U ''rows of bandwidth data to BigQuery table''),
                      S (tableName_of (options c) (clock w (Suc (reads w))))]
          (w\<lparr>lastFlushTimestamp := clock w (reads w), reads := Suc (Suc (reads w)),
             heap := (heap w)(next_addr w := []), next_addr := Suc (next_addr w)\<rparr>)))"
  by (simp add: flush_def Date_now_def takeData_def new_array_def Let_def)

lemma pushRow_below:
  "int (dataSize c + size' r) < sizeFlushThreshold (options c) \<Longrightarrow>
   pushRow r c w = (c\<lparr>dataSize := dataSize c + size' r\<rparr>, array_push (data c) r w)"
  by (simp add: pushRow_def Let_def)

lemma pushRow_reach:
  "sizeFlushThreshold (options c) \<le> int (dataSize c + size' r) \<Longrightarrow>
   pushRow r c w = flush (c\<lparr>dataSize := dataSize c + size' r\<rparr>) (array_push (data c) r w)"
  by (simp add: pushRow_def Let_def)

lemma flush_separate:
  assumes "separate c w"
  shows "separate (fst (flush c w)) (snd (flush c w))"
proof (cases "heap w (data c) = []")
  case True
  with assms show ?thesis by (simp add: flush_empty separate_def)
next
  case False
  moreover from assms have "data c \<noteq> next_addr w" by (simp add: separate_def)
  ultimately show ?thesis using assms
    by (auto simp: flush_nonempty separate_def table_insert_def console_log_def list_all_iff)
qed

lemma flush_conserve:
  assumes "separate c w"
  shows "concat (batches (snd (flush c w))) @ pending (fst (flush c w)) (snd (flush c w))
         = concat (batches w) @ pending c w"
proof (cases "heap w (data c) = []")
  case True
  with assms show ?thesis by (simp add: flush_empty pending_def batches_def)
next
  case False
  from assms have neq: "data c \<noteq> next_addr w" by (simp add: separate_def)
  have eq: "map (\<lambda>(d, t, a). if a = next_addr w then [] else heap w a) (inserts w)
        = map (\<lambda>(d, t, a). heap w a) (inserts w)"
    using assms by (auto simp: separate_def list_all_iff)
  show ?thesis using False neq
    by (simp add: flush_nonempty pending_def batches_def table_insert_def console_log_def fun_upd_def eq)
qed

lemma flush_heap:
  "a < next_addr w \<Longrightarrow> heap (snd (flush c w)) a = heap w a"
  by (simp add: flush_def Date_now_def takeData_def new_array_def Let_def table_insert_def console_log_def)

lemma flush_next_addr:
  "next_addr w \<le> next_addr (snd (flush c w))"
  by (simp add: flush_def Date_now_def takeData_def new_array_def Let_def table_insert_def console_log_def)

lemma flush_data:
  "data (fst (flush c w)) = data c \<or> data (fst (flush c w)) = next_addr w"
  by (simp add: flush_def Date_now_def takeData_def new_array_def Let_def table_insert_def console_log_def)

lemma push_separate:
  "separate c w \<Longrightarrow> separate (c\<lparr>dataSize := n\<rparr>) (array_push (data c) r w)"
  by (simp add: separate_def array_push_def)

lemma push_conserve:
  assumes "separate c w"
  shows "concat (batches (array_push (data c) r w)) @ pending (c\<lparr>dataSize := n\<rparr>) (array_push (data c) r w)
         = concat (batches w) @ pending c w @ [r]"
proof -
  have eq: "map (\<lambda>(d, t, a). if a = data c then heap w (data c) @ [r] else heap w a) (inserts w)
        = map (\<lambda>(d, t, a). heap w a) (inserts w)"
    using assms by (auto simp: separate_def list_all_iff)
  show ?thesis
    by (simp add: pending_def batches_def array_push_def fun_upd_def eq)
qed

lemma pushRow_separate:
  assumes "separate c w"
  shows "separate (fst (pushRow r c w)) (snd (pushRow r c w))"
  using push_separate [OF assms] flush_separate
  by (simp add: pushRow_def Let_def)

lemma pushRow_conserve:
  assumes "separate c w"
  shows "concat (batches (snd (pushRow r c w))) @ pending (fst (pushRow r c w)) (snd (pushRow r c w))
         = concat (batches w) @ pending c w @ [r]"
  using push_conserve [OF assms] flush_conserve [OF push_separate [OF assms]]
  by (simp add: pushRow_def Let_def)

lemma pushRow_heap:
  "a < next_addr w \<Longrightarrow> a \<noteq> data c \<Longrightarrow> heap (snd (pushRow r c w)) a = heap w a"
  by (simp add: pushRow_def Let_def flush_heap array_push_def)

lemma pushRow_next_addr:
  "next_addr w \<le> next_addr (snd (pushRow r c w))"
  using flush_next_addr [of "array_push (data c) r w"]
  by (simp add: pushRow_def Let_def array_push_def)

lemma pushRow_data:
  "data (fst (pushRow r c w)) = data c \<or> data (fst (pushRow r c w)) = next_addr w"
  using flush_data [of "c\<lparr>dataSize := dataSize c + size' r\<rparr>" "array_push (data c) r w"]
  by (simp add: pushRow_def Let_def array_push_def)

lemma pushRows_keep:
  assumes "separate c w" and "a < next_addr w" and "a \<noteq> data c"
  shows "heap (snd (pushRows rs c w)) a = heap w a
       \<and> concat (batches (snd (pushRows rs c w))) @ pending (fst (pushRows rs c w)) (snd (pushRows rs c w))
         = concat (batches w) @ pending c w @ rs"
  using assms
proof (induction rs arbitrary: c w)
  case Nil
  then show ?case by simp
next
  case (Cons r rs)
  obtain c1 w1 where p: "pushRow r c w = (c1, w1)" by (cases "pushRow r c w")
  have s1: "separate c1 w1" using pushRow_separate [OF Cons.prems(1), of r] p by simp
  have a1: "a < next_addr w1" using pushRow_next_addr [of w r c] p Cons.prems(2) by simp
  have d1: "a \<noteq> data c1" using pushRow_data [of r c w] p Cons.prems(2,3) by auto
  have h1: "heap w1 a = heap w a" using pushRow_heap [OF Cons.prems(2,3), of r] p by simp
  have t1: "concat (batches w1) @ pending c1 w1 = concat (batches w) @ pending c w @ [r]"
    using pushRow_conserve [OF Cons.prems(1), of r] p by simp
  from Cons.IH [OF s1 a1 d1] h1 t1 p show ?case by simp
qed

lemma flush_fields:
  "lastFlushTimestamp (snd (flush c w)) = clock w (reads w)"
  "serverTimeOffset (snd (flush c w)) = serverTimeOffset w"
  "clock (snd (flush c w)) = clock w"
  "reads (snd (flush c w)) = (if heap w (data c) = [] then Suc (reads w) else Suc (Suc (reads w)))"
  by (simp_all add: flush_def Date_now_def takeData_def new_array_def Let_def table_insert_def
      console_log_def)

lemma pushRow_serverTimeOffset:
  "serverTimeOffset (snd (pushRow r c w)) = serverTimeOffset w"
  by (simp add: pushRow_def Let_def flush_fields array_push_def)

lemma flushIfLate_serverTimeOffset:
  "serverTimeOffset (snd (flushIfLate c w)) = serverTimeOffset w"
  by (simp add: flushIfLate_def Date_now_def flush_fields)

lemma parseReadMessage_world:
  "parseReadMessage prefix v w = (x, w1) \<Longrightarrow>
   serverTimeOffset w1 = serverTimeOffset w \<and> clock w1 = clock w \<and> reads w1 = reads w"
  by (auto simp: parseReadMessage_def console_log_def Let_def split: option.splits if_splits)

lemma parseWriteMessage_world:
  "parseWriteMessage v w = Inr (x, w1) \<Longrightarrow>
   serverTimeOffset w1 = serverTimeOffset w \<and> clock w1 = clock w \<and> reads w1 = reads w"
  by (auto simp: parseWriteMessage_def console_log_def Let_def split: option.splits if_splits)

lemma parse_row_world:
  "parse_row m w = Inr (x, w1) \<Longrightarrow>
   serverTimeOffset w1 = serverTimeOffset w \<and> clock w1 = clock w \<and> reads w1 = reads w"
  by (auto simp: parse_row_def split: option.splits if_splits
           dest: parseReadMessage_world parseWriteMessage_world)

lemma collectLog_event:
  assumes "match l LOG_REGEX = Some m" and "parse_row m w = Inr (Some r, w1)"
  shows "collectLog l c w =
           Inr (pushRow (stamp r c (clock w (reads w)) (w1\<lparr>reads := Suc (reads w)\<rparr>)) c
                  (w1\<lparr>reads := Suc (reads w)\<rparr>))"
  using assms parse_row_world [OF assms(2)]
  by (simp add: collectLog_def collectLog_try_def Date_now_def)

lemma stamp_fields:
  "time (stamp r c now w) = Some (Quot (add_num (to_number now) (serverTimeOffset w)) 1000)"
  "size' (stamp r c now w) = size' r"
  "path (stamp r c now w) = path r"
  "op (stamp r c now w) = op r"
  by (simp_all add: stamp_def Let_def)

lemma collectLog_no_fault: "\<exists>c1 w1. collectLog message c w = Inr (c1, w1)"
  by (cases "collectLog_try message c w") (auto simp: collectLog_def)

lemma collectLog_keeps_offset:
  assumes "\<not> offset_line l" and "collectLog l c w = Inr (c1, w1)"
  shows "serverTimeOffset w1 = serverTimeOffset w"
proof (cases "match l LOG_REGEX")
  case None
  with assms show ?thesis
    by (auto simp: offset_line_def collectLog_def collectLog_try_def)
next
  case (Some m)
  show ?thesis
  proof (cases "parse_row m w")
    case (Inl e)
    with Some assms(2) show ?thesis
      by (auto simp: collectLog_def collectLog_try_def console_log_def)
  next
    case (Inr xw)
    obtain x w2 where xw: "xw = (x, w2)" by (cases xw)
    note pw = parse_row_world [OF Inr [unfolded xw]]
    show ?thesis
    proof (cases x)
      case None
      with Some Inr xw assms(2) pw show ?thesis
        by (auto simp: collectLog_def collectLog_try_def)
    next
      case (Some r)
      from collectLog_event [OF \<open>match l LOG_REGEX = Some m\<close> Inr [unfolded xw Some], of c] assms(2)
      have "w1 = snd (pushRow (stamp r c (clock w (reads w)) (w2\<lparr>reads := Suc (reads w)\<rparr>)) c
                  (w2\<lparr>reads := Suc (reads w)\<rparr>))"
        by (metis Inr_inject snd_conv)
      then show ?thesis using pw by (simp add: pushRow_serverTimeOffset)
    qed
  qed
qed

lemma run_keeps_offset:
  assumes "run es c w = Inr (c1, w1)" and "\<forall>l. Line l \<in> set es \<longrightarrow> \<not> offset_line l"
  shows "serverTimeOffset w1 = serverTimeOffset w"
  using assms
proof (induction es c w rule: run.induct)
  case (1 c w)
  then show ?case by simp
next
  case (2 l es c w)
  obtain c2 w2 where cl: "collectLog l c w = Inr (c2, w2)" using collectLog_no_fault by blast
  have "serverTimeOffset w2 = serverTimeOffset w"
    using collectLog_keeps_offset [OF _ cl] "2.prems"(2) by simp
  moreover have "serverTimeOffset w1 = serverTimeOffset w2"
    using "2.IH" [OF cl] "2.prems" cl by simp
  ultimately show ?case by simp
next
  case (3 es c w)
  obtain c2 w2 where fl: "flushIfLate c w = (c2, w2)" by (cases "flushIfLate c w")
  have "serverTimeOffset w2 = serverTimeOffset w"
    using flushIfLate_serverTimeOffset [of c w] fl by simp
  moreover have "serverTimeOffset w1 = serverTimeOffset w2"
    using "3.IH" [OF fl [symmetric]] "3.prems" fl by simp
  ultimately show ?case by simp
qed

lemma parseReadMessage_Some:
  assumes "parseReadMessage prefix v w = (Some r, w1)"
  shows "\<exists>details t. match prefix READ_REGEX = Some details \<and> read_messageType details = Some t
           \<and> size' r = read_size (Some t) v \<and> op r = U ''r'' \<and> w1 = w"
proof (cases "match prefix READ_REGEX")
  case None
  with assms show ?thesis by (simp add: parseReadMessage_def)
next
  case (Some details)
  show ?thesis
  proof (cases "read_messageType details")
    case None
    with Some assms show ?thesis by (simp add: parseReadMessage_def Let_def)
  next
    case (Some t)
    with \<open>match prefix READ_REGEX = Some details\<close> assms show ?thesis
      by (simp add: parseReadMessage_def Let_def split: if_splits option.splits) auto
  qed
qed

lemma parseWriteMessage_Some:
  assumes "parseWriteMessage v w = Inr (Some r, w1)"
  shows "size' r = length v + 16 \<and> op r = U ''w'' \<and> w1 = w"
proof (cases "match v WRITE_REGEX")
  case None
  with assms show ?thesis by (simp add: parseWriteMessage_def)
next
  case (Some details)
  with assms show ?thesis
    by (simp add: parseWriteMessage_def Let_def split: if_splits) auto
qed


text \<open>
  The separation that the theorems on the buffer assume holds for a new collector and
  stays through every run.
\<close>

lemma BandwidthCollector_separate:
  assumes "list_all (\<lambda>(d, t, a). a < next_addr w) (inserts w)"
  shows "separate (fst (BandwidthCollector opts w)) (snd (BandwidthCollector opts w))"
  using assms
  by (auto simp: BandwidthCollector_def new_array_def separate_def list_all_iff)

lemma flushIfLate_separate:
  assumes "separate c w"
  shows "separate (fst (flushIfLate c w)) (snd (flushIfLate c w))"
proof -
  have "separate c (w\<lparr>reads := Suc (reads w)\<rparr>)" using assms by (simp add: separate_def)
  from flush_separate [OF this] assms show ?thesis
    by (simp add: flushIfLate_def Date_now_def separate_def)
qed

lemma parse_row_separate:
  assumes "parse_row m w = Inr (x, w1)" and "separate c w"
  shows "separate c w1"
  using assms
  by (auto simp: parse_row_def parseReadMessage_def parseWriteMessage_def console_log_def
      separate_def Let_def split: option.splits if_splits)

lemma collectLog_separate:
  assumes "separate c w" and "collectLog l c w = Inr (c1, w1)"
  shows "separate c1 w1"
proof (cases "match l LOG_REGEX")
  case None
  with assms show ?thesis
    by (auto simp: collectLog_def collectLog_try_def separate_def split: option.splits)
next
  case (Some m)
  show ?thesis
  proof (cases "parse_row m w")
    case (Inl e)
    with Some assms show ?thesis
      by (auto simp: collectLog_def collectLog_try_def console_log_def separate_def)
  next
    case (Inr xw)
    obtain x w2 where xw: "xw = (x, w2)" by (cases xw)
    note s2 = parse_row_separate [OF Inr [unfolded xw] assms(1)]
    note pw = parse_row_world [OF Inr [unfolded xw]]
    show ?thesis
    proof (cases x)
      case None
      with Some Inr xw assms(2) s2 show ?thesis
        by (auto simp: collectLog_def collectLog_try_def)
    next
      case (Some r)
      let ?w3 = "w2\<lparr>reads := Suc (reads w)\<rparr>"
      let ?r = "stamp r c (clock w (reads w)) ?w3"
      have s3: "separate c ?w3" using s2 by (simp add: separate_def)
      from collectLog_event [OF \<open>match l LOG_REGEX = Some m\<close> Inr [unfolded xw Some], of c] assms(2)
      have "(c1, w1) = pushRow ?r c ?w3" by simp
      then have "c1 = fst (pushRow ?r c ?w3)" "w1 = snd (pushRow ?r c ?w3)"
        by (metis fst_conv, metis snd_conv)
      then show ?thesis using pushRow_separate [OF s3, of ?r] by simp
    qed
  qed
qed

lemma run_separate:
  assumes "run es c w = Inr (c1, w1)" and "separate c w"
  shows "separate c1 w1"
  using assms
proof (induction es c w rule: run.induct)
  case (1 c w)
  then show ?case by simp
next
  case (2 l es c w)
  obtain c2 w2 where cl: "collectLog l c w = Inr (c2, w2)" using collectLog_no_fault by blast
  have "separate c2 w2" by (rule collectLog_separate [OF "2.prems"(2) cl])
  then show ?case using "2.IH" [OF cl] "2.prems"(1) cl by simp
next
  case (3 es c w)
  obtain c2 w2 where fl: "flushIfLate c w = (c2, w2)" by (cases "flushIfLate c w")
  have "separate c2 w2" using flushIfLate_separate [OF "3.prems"(2)] fl by simp
  then show ?case using "3.IH" [OF fl [symmetric]] "3.prems"(1) fl by simp
qed

section \<open>The sample configuration\<close>

lemma fresh_fields:
  "options (fst fresh) = sample_options" "data (fst fresh) = 0" "dataSize (fst fresh) = 0"
  "heap (snd fresh) a = []" "next_addr (snd fresh) = 1" "inserts (snd fresh) = []"
  "lastFlushTimestamp (snd fresh) = 0" "reads (snd fresh) = 0" "clock (snd fresh) = sample_clock"
  "serverTimeOffset (snd fresh) = Exact 0" "console (snd fresh) = []"
  by (simp_all add: fresh_def BandwidthCollector_def new_array_def start_def)

lemma loaded_fields:
  "options (fst loaded) = sample_options" "data (fst loaded) = 1" "dataSize (fst loaded) = 50"
  "heap (snd loaded) a = (if a = 1 then [sample_row] else [])"
  "next_addr (snd loaded) = 2" "inserts (snd loaded) = []"
  "lastFlushTimestamp (snd loaded) = 0" "reads (snd loaded) = 0" "clock (snd loaded) = sample_clock"
  "serverTimeOffset (snd loaded) = Exact 0" "console (snd loaded) = []"
  by (simp_all add: loaded_def BandwidthCollector_def new_array_def pushRow_def Let_def
      array_push_def fresh_fields sample_options_def sample_row_def)

section \<open>The claims\<close>

text \<open>
  C1. For every flush on a non-empty buffer, the sink is called in a state in which the
  collector already has a fresh empty array and size 0; the array handed to the sink is
  the one that held the pending rows, unchanged and in arrival order; rows pushed
  afterwards leave that array as it is, and all rows handed to the sink so far followed
  by the pending ones are the earlier ones followed by the rows pushed, in order.
\<close>

theorem flush_hands_over_pending:
  assumes sep: "separate c w" and ne: "pending c w \<noteq> []"
  shows "\<exists>c1 w1 name.
           flush c w = (c1, table_insert (datasetId (options c)) name (data c) w1)
         \<and> pending c1 w1 = [] \<and> dataSize c1 = 0
         \<and> heap w1 (data c) = pending c w
         \<and> inserts w1 = inserts w
         \<and> (\<forall>rs. case pushRows rs c1 (table_insert (datasetId (options c)) name (data c) w1) of
                    (c2, w2) \<Rightarrow>
                      heap w2 (data c) = pending c w
                    \<and> concat (batches w2) @ pending c2 w2 = concat (batches w) @ pending c w @ rs)"
proof -
  let ?name = "tableName_of (options c) (clock w (Suc (reads w)))"
  let ?c1 = "c\<lparr>data := next_addr w, dataSize := 0\<rparr>"
  let ?w1 = "console_log [S (U ''Flushing''), N (int (length (heap w (data c)))),
                          S (U ''rows of bandwidth data to BigQuery table''), S ?name]
               (w\<lparr>lastFlushTimestamp := clock w (reads w), reads := Suc (Suc (reads w)),
                  heap := (heap w)(next_addr w := []), next_addr := Suc (next_addr w)\<rparr>)"
  let ?w2 = "table_insert (datasetId (options c)) ?name (data c) ?w1"
  from sep have lt: "data c < next_addr w" by (simp add: separate_def)
  from ne have ne': "heap w (data c) \<noteq> []" by (simp add: pending_def)
  have fl: "flush c w = (?c1, ?w2)"
    using flush_nonempty [OF ne'] lt by simp
  have reset: "pending ?c1 ?w1 = []" "dataSize ?c1 = 0"
    by (simp_all add: pending_def console_log_def)
  have batch: "heap ?w1 (data c) = pending c w"
    using lt by (simp add: pending_def console_log_def)
  have ins: "inserts ?w1 = inserts w"
    by (simp add: console_log_def)
  have sep2: "separate ?c1 ?w2"
    using flush_separate [OF sep] fl by simp
  have a2: "data c < next_addr ?w2" "data c \<noteq> data ?c1"
    using lt by (simp_all add: table_insert_def console_log_def)
  have tot: "concat (batches ?w2) @ pending ?c1 ?w2 = concat (batches w) @ pending c w"
    using flush_conserve [OF sep] fl by simp
  have h2: "heap ?w2 (data c) = pending c w"
    using batch by (simp add: table_insert_def)
  have later: "heap (snd (pushRows rs ?c1 ?w2)) (data c) = pending c w
      \<and> concat (batches (snd (pushRows rs ?c1 ?w2)))
          @ pending (fst (pushRows rs ?c1 ?w2)) (snd (pushRows rs ?c1 ?w2))
        = concat (batches w) @ pending c w @ rs" for rs
    using pushRows_keep [OF sep2 a2, of rs] tot h2 by simp
  have "\<forall>rs. case pushRows rs ?c1 ?w2 of
               (c2, w2) \<Rightarrow> heap w2 (data c) = pending c w
                 \<and> concat (batches w2) @ pending c2 w2 = concat (batches w) @ pending c w @ rs"
    using later by (simp add: split_beta)
  with fl reset batch ins show ?thesis by blast
qed

text \<open>
  On the second sample collector, which holds one row: the flush hands over that row.
\<close>

theorem flush_hands_over_pending_witness:
  "separate (fst loaded) (snd loaded) \<and> pending (fst loaded) (snd loaded) \<noteq> []
 \<and> (\<exists>c1 w1 name.
           flush (fst loaded) (snd loaded)
             = (c1, table_insert (datasetId (options (fst loaded))) name (data (fst loaded)) w1)
         \<and> pending c1 w1 = [] \<and> dataSize c1 = 0
         \<and> heap w1 (data (fst loaded)) = pending (fst loaded) (snd loaded)
         \<and> inserts w1 = inserts (snd loaded)
         \<and> (\<forall>rs. case pushRows rs c1
                         (table_insert (datasetId (options (fst loaded))) name (data (fst loaded)) w1) of
                    (c2, w2) \<Rightarrow>
                      heap w2 (data (fst loaded)) = pending (fst loaded) (snd loaded)
                    \<and> concat (batches w2) @ pending c2 w2
                        = concat (batches (snd loaded)) @ pending (fst loaded) (snd loaded) @ rs))"
proof -
  have h1: "separate (fst loaded) (snd loaded)"
    by (simp add: separate_def loaded_fields)
  have h2: "pending (fst loaded) (snd loaded) \<noteq> []"
    by (simp add: pending_def loaded_fields)
  show ?thesis
    by (rule conjI [OF h1 conjI [OF h2 flush_hands_over_pending [OF h1 h2]]])
qed

text \<open>
  C2 (the code departs from the claim). On a payload that does not match the write pattern,
  \<open>parseWriteMessage\<close> throws a \<^verbatim>\<open>TypeError\<close> before it reaches its own test and its
  diagnostic; what the console gets is the line of the \<^verbatim>\<open>catch\<close> in \<open>collectLog\<close>.
\<close>

theorem write_mismatch_throws:
  \<open>parseWriteMessage (U ''{"t":"d","d":{"r":1}}'') w = Inl TypeError
   \<and> collectLog (U ''p:1: {"t":"d","d":{"r":1}}'') c w
       = Inr (c, console_log [S (U ''Unexpected error while collecting Firebase bandwidth:''),
                              Stack TypeError] w)\<close>
  by (simp add: collectLog_def collectLog_try_def parse_row_def parseWriteMessage_def
      LOG_REGEX_def WRITE_REGEX_def seqs_def match_anchored rmatch_lit U_def)

text \<open>
  C3 (as stated, refuted). A write line whose captured path does not begin with the separator
  yields an event with that path as it stands.
\<close>

theorem write_path_without_separator:
  \<open>match (U ''p:1: {"r":1,"a":"p","b":{"p":"foo","d":1}}'') LOG_REGEX
     = Some [1 \<mapsto> [], 2 \<mapsto> U ''{"r":1,"a":"p","b":{"p":"foo","d":1}}'']
 \<and> parse_row [1 \<mapsto> [], 2 \<mapsto> U ''{"r":1,"a":"p","b":{"p":"foo","d":1}}''] (snd fresh)
     = Inr (Some \<lparr>op = U ''w'', size' = 53, path = Some (U ''foo''), time = None, tag = None\<rparr>,
            snd fresh)
 \<and> hd (U ''foo'') \<noteq> of_char CHR ''/''\<close>
  by (simp add: parse_row_def parseWriteMessage_def
      LOG_REGEX_def WRITE_REGEX_def seqs_def match_anchored rmatch_lit U_def)

text \<open>
  C3 (amended). For every input line, if classification produces an event, its path is a
  non-empty string; it begins with \<^verbatim>\<open>/\<close> for every read event and for every write event
  with another action than \<^verbatim>\<open>m\<close> and \<^verbatim>\<open>p\<close> (the protocol path), and for a write event
  with action \<^verbatim>\<open>m\<close> or \<^verbatim>\<open>p\<close> it is the text captured from the payload, with nothing put
  in front.
\<close>

theorem event_path:
  assumes "match line LOG_REGEX = Some m" and "parse_row m w = Inr (Some r, w1)"
  shows "\<exists>p. path r = Some p \<and> p \<noteq> []
           \<and> (op r = U ''r'' \<or> op r = U ''w'')
           \<and> (op r = U ''r'' \<longrightarrow> hd p = of_char CHR ''/'')
           \<and> (op r = U ''w'' \<longrightarrow>
                 (\<exists>v details. m 2 = Some v \<and> match v WRITE_REGEX = Some details
                    \<and> (if details 1 = Some (U ''m'') \<or> details 1 = Some (U ''p'')
                        then details 3 = Some p
                        else p = PROTOCOL_PATH \<and> hd p = of_char CHR ''/'')))"
proof -
  from assms(2) obtain v where v: "m 2 = Some v"
    by (auto simp: parse_row_def split: option.splits)
  have rw: "U ''r'' \<noteq> U ''w''" by (simp add: U_def)
  from assms(2) v consider
      (rd) prefix where "parseReadMessage prefix v w = (Some r, w1)"
    | (wr) "parseWriteMessage v w = Inr (Some r, w1)"
    by (auto simp: parse_row_def split: option.splits if_splits)
  then show ?thesis
  proof cases
    case rd
    from parseReadMessage_Some [OF rd] have o: "op r = U ''r''" by blast
    from rd have "\<exists>p. path r = Some p \<and> p \<noteq> [] \<and> hd p = of_char CHR ''/''"
      by (auto simp: parseReadMessage_def Let_def PROTOCOL_PATH_def DEBUG_PATH_def U_def
               split: option.splits if_splits)
    then show ?thesis using o rw by auto
  next
    case wr
    from parseWriteMessage_Some [OF wr] have o: "op r = U ''w''" by blast
    obtain details where d: "match v WRITE_REGEX = Some details"
      using wr by (cases "match v WRITE_REGEX") (auto simp: parseWriteMessage_def)
    have hp: "hd PROTOCOL_PATH = of_char CHR ''/''" "PROTOCOL_PATH \<noteq> []"
      by (simp_all add: PROTOCOL_PATH_def U_def)
    from wr d hp(2) have "\<exists>p. path r = Some p \<and> p \<noteq> []
        \<and> (if details 1 = Some (U ''m'') \<or> details 1 = Some (U ''p'')
            then details 3 = Some p else p = PROTOCOL_PATH)"
      by (cases "details 3") (auto simp: parseWriteMessage_def Let_def split: if_splits)
    then show ?thesis using o rw v d hp by auto
  qed
qed

text \<open>
  A set on the path \<^verbatim>\<open>/x\<close>, and a data message for \<^verbatim>\<open>a/b\<close>.
\<close>

theorem event_path_witness:
  \<open>match (U ''p:7: {"r":1,"a":"p","b":{"p":"/x","d":1}}'') LOG_REGEX
     = Some [1 \<mapsto> [], 2 \<mapsto> U ''{"r":1,"a":"p","b":{"p":"/x","d":1}}'']
 \<and> parse_row [1 \<mapsto> [], 2 \<mapsto> U ''{"r":1,"a":"p","b":{"p":"/x","d":1}}''] (snd fresh)
     = Inr (Some \<lparr>op = U ''w'', size' = 52, path = Some (U ''/x''), time = None, tag = None\<rparr>,
            snd fresh)
 \<and> (\<exists>details. match (U ''{"r":1,"a":"p","b":{"p":"/x","d":1}}'') WRITE_REGEX = Some details
        \<and> details 1 = Some (U ''p'') \<and> details 3 = Some (U ''/x''))
 \<and> match (U ''p:8: handleServerMessage d {"p":"a/b","d":1}'') LOG_REGEX
     = Some [1 \<mapsto> U ''handleServerMessage d '', 2 \<mapsto> U ''{"p":"a/b","d":1}'']
 \<and> parse_row [1 \<mapsto> U ''handleServerMessage d '', 2 \<mapsto> U ''{"p":"a/b","d":1}''] (snd fresh)
     = Inr (Some \<lparr>op = U ''r'', size' = 41, path = Some (U ''/a/b''), time = None, tag = None\<rparr>,
            snd fresh)
 \<and> hd (U ''/a/b'') = of_char CHR ''/''\<close>
proof -
  let ?m = \<open>[1 \<mapsto> [], 2 \<mapsto> U ''{"r":1,"a":"p","b":{"p":"/x","d":1}}'']\<close>
  let ?r = \<open>\<lparr>op = U ''w'', size' = 52, path = Some (U ''/x''), time = None, tag = None\<rparr>\<close>
  let ?m' = \<open>[1 \<mapsto> U ''handleServerMessage d '', 2 \<mapsto> U ''{"p":"a/b","d":1}'']\<close>
  let ?r' = \<open>\<lparr>op = U ''r'', size' = 41, path = Some (U ''/a/b''), time = None, tag = None\<rparr>\<close>
  have h1: \<open>match (U ''p:7: {"r":1,"a":"p","b":{"p":"/x","d":1}}'') LOG_REGEX = Some ?m\<close>
    by (simp add: LOG_REGEX_def seqs_def match_anchored rmatch_lit U_def)
  have h2: "parse_row ?m (snd fresh) = Inr (Some ?r, snd fresh)"
    by (simp add: parse_row_def parseWriteMessage_def WRITE_REGEX_def seqs_def match_anchored
        rmatch_lit U_def)
  have h3: \<open>match (U ''p:8: handleServerMessage d {"p":"a/b","d":1}'') LOG_REGEX = Some ?m'\<close>
    by (simp add: LOG_REGEX_def seqs_def match_anchored rmatch_lit U_def)
  have h4: "parse_row ?m' (snd fresh) = Inr (Some ?r', snd fresh)"
    by (simp add: parse_row_def parseReadMessage_def read_messageType_def read_size_def
        READ_REGEX_def READ_PATH_REGEX_def seqs_def match_anchored rmatch_lit U_def)
  have pm: \<open>Some (U ''p'') = Some (U ''m'') \<or> Some (U ''p'') = Some (U ''p'')\<close> by simp
  from event_path [OF h1 h2]
  have w: \<open>\<exists>details. match (U ''{"r":1,"a":"p","b":{"p":"/x","d":1}}'') WRITE_REGEX = Some details
        \<and> details 1 = Some (U ''p'') \<and> details 3 = Some (U ''/x'')\<close>
    by (simp add: WRITE_REGEX_def seqs_def match_anchored rmatch_lit U_def)
  from event_path [OF h3 h4]
  have r: \<open>hd (U ''/a/b'') = of_char CHR ''/''\<close>
    by simp
  show ?thesis by (intro conjI h1 h2 w h3 h4 r)
qed

text \<open>
  C4. For every read event, the size is the length of the payload plus 16, plus
  7 and the length of the message type exactly when the message type is not empty; for
  every write event, the size is the length of the payload plus 16.
\<close>

theorem event_sizes:
  "(parseReadMessage prefix v w = (Some r, w1) \<longrightarrow>
      (\<exists>details t. match prefix READ_REGEX = Some details \<and> read_messageType details = Some t
         \<and> size' r = length v + 16 + (if t \<noteq> [] then 7 + length t else 0)))
 \<and> (parseWriteMessage v w = Inr (Some r, w1) \<longrightarrow> size' r = length v + 16)"
proof (intro conjI impI)
  assume "parseReadMessage prefix v w = (Some r, w1)"
  from parseReadMessage_Some [OF this]
  show "\<exists>details t. match prefix READ_REGEX = Some details \<and> read_messageType details = Some t
         \<and> size' r = length v + 16 + (if t \<noteq> [] then 7 + length t else 0)"
    by (auto simp: read_size_def)
next
  assume "parseWriteMessage v w = Inr (Some r, w1)"
  from parseWriteMessage_Some [OF this] show "size' r = length v + 16" by simp
qed

text \<open>
  A data message of 17 code units handled from the server has size 17 + 16 + 7 + 1; a
  set of 36 code units has size 36 + 16.
\<close>

theorem event_sizes_witness:
  \<open>parseReadMessage (U ''handleServerMessage d '') (U ''{"p":"a/b","d":1}'') (snd fresh)
     = (Some \<lparr>op = U ''r'', size' = 41, path = Some (U ''/a/b''), time = None, tag = None\<rparr>,
        snd fresh)
 \<and> (\<exists>details t. match (U ''handleServerMessage d '') READ_REGEX = Some details
        \<and> read_messageType details = Some t
        \<and> (41::nat) = length (U ''{"p":"a/b","d":1}'') + 16 + (if t \<noteq> [] then 7 + length t else 0))
 \<and> parseWriteMessage (U ''{"r":1,"a":"p","b":{"p":"/x","d":1}}'') (snd fresh)
     = Inr (Some \<lparr>op = U ''w'', size' = 52, path = Some (U ''/x''), time = None, tag = None\<rparr>,
            snd fresh)
 \<and> (52::nat) = length (U ''{"r":1,"a":"p","b":{"p":"/x","d":1}}'') + 16\<close>
proof -
  let ?r = \<open>\<lparr>op = U ''r'', size' = 41, path = Some (U ''/a/b''), time = None, tag = None\<rparr>\<close>
  let ?r' = \<open>\<lparr>op = U ''w'', size' = 52, path = Some (U ''/x''), time = None, tag = None\<rparr>\<close>
  have h1: \<open>parseReadMessage (U ''handleServerMessage d '') (U ''{"p":"a/b","d":1}'') (snd fresh)
     = (Some ?r, snd fresh)\<close>
    by (simp add: parseReadMessage_def read_messageType_def read_size_def READ_REGEX_def
        READ_PATH_REGEX_def seqs_def match_anchored rmatch_lit U_def)
  have h2: \<open>parseWriteMessage (U ''{"r":1,"a":"p","b":{"p":"/x","d":1}}'') (snd fresh)
     = Inr (Some ?r', snd fresh)\<close>
    by (simp add: parseWriteMessage_def WRITE_REGEX_def seqs_def match_anchored rmatch_lit U_def)
  note t = event_sizes [of \<open>U ''handleServerMessage d ''\<close> \<open>U ''{"p":"a/b","d":1}''\<close> "snd fresh"
      ?r "snd fresh"]
  note t' = event_sizes [of _ \<open>U ''{"r":1,"a":"p","b":{"p":"/x","d":1}}''\<close> "snd fresh"
      ?r' "snd fresh"]
  from t [THEN conjunct1, THEN mp, OF h1] t' [THEN conjunct2, THEN mp, OF h2] h1 h2
  show ?thesis by simp
qed

text \<open>
  C5. A push that brings the running size to the threshold or beyond is one call of
  \<open>flush\<close> on the buffer with the new row: afterwards no row is pending, the running
  size is 0, and the sink has been called exactly once more, with the earlier pending
  rows followed by the new one. A push that leaves the size below the threshold
  only appends the row: no call of the sink, no change of the last-flush instant.
\<close>

theorem pushRow_flushes_at_threshold:
  "(sizeFlushThreshold (options c) \<le> int (dataSize c + size' r) \<longrightarrow>
      pushRow r c w = flush (c\<lparr>dataSize := dataSize c + size' r\<rparr>) (array_push (data c) r w)
    \<and> (data c < next_addr w \<longrightarrow>
         (case pushRow r c w of
            (c1, w1) \<Rightarrow> length (pending c1 w1) = 0 \<and> dataSize c1 = 0
                      \<and> inserts w1 = inserts w @ [(datasetId (options c),
                                                     tableName_of (options c) (clock w (Suc (reads w))),
                                                     data c)]
                      \<and> heap w1 (data c) = pending c w @ [r])))
 \<and> (int (dataSize c + size' r) < sizeFlushThreshold (options c) \<longrightarrow>
      pushRow r c w = (c\<lparr>dataSize := dataSize c + size' r\<rparr>, array_push (data c) r w)
    \<and> (case pushRow r c w of
          (c1, w1) \<Rightarrow> pending c1 w1 = pending c w @ [r] \<and> inserts w1 = inserts w
                    \<and> lastFlushTimestamp w1 = lastFlushTimestamp w \<and> reads w1 = reads w))"
proof (intro conjI impI)
  assume "sizeFlushThreshold (options c) \<le> int (dataSize c + size' r)"
  then show "pushRow r c w = flush (c\<lparr>dataSize := dataSize c + size' r\<rparr>) (array_push (data c) r w)"
    by (rule pushRow_reach)
next
  assume th: "sizeFlushThreshold (options c) \<le> int (dataSize c + size' r)"
    and lt: "data c < next_addr w"
  let ?c0 = "c\<lparr>dataSize := dataSize c + size' r\<rparr>" and ?w0 = "array_push (data c) r w"
  have ne: "heap ?w0 (data ?c0) \<noteq> []" by (simp add: array_push_def)
  have neq: "data ?c0 \<noteq> next_addr ?w0" using lt by (simp add: array_push_def)
  show "case pushRow r c w of
          (c1, w1) \<Rightarrow> length (pending c1 w1) = 0 \<and> dataSize c1 = 0
                    \<and> inserts w1 = inserts w @ [(datasetId (options c),
                                                   tableName_of (options c) (clock w (Suc (reads w))),
                                                   data c)]
                    \<and> heap w1 (data c) = pending c w @ [r]"
    using lt unfolding pushRow_reach [OF th] flush_nonempty [OF ne neq]
    by (simp add: pending_def table_insert_def console_log_def array_push_def)
next
  assume "int (dataSize c + size' r) < sizeFlushThreshold (options c)"
  then show "pushRow r c w = (c\<lparr>dataSize := dataSize c + size' r\<rparr>, array_push (data c) r w)"
    by (rule pushRow_below)
next
  assume b: "int (dataSize c + size' r) < sizeFlushThreshold (options c)"
  show "case pushRow r c w of
          (c1, w1) \<Rightarrow> pending c1 w1 = pending c w @ [r] \<and> inserts w1 = inserts w
                    \<and> lastFlushTimestamp w1 = lastFlushTimestamp w \<and> reads w1 = reads w"
    unfolding pushRow_below [OF b] by (simp add: pending_def array_push_def)
qed

text \<open>
  On the samples: a second row of 50 bytes reaches the threshold of 100 and is flushed
  with the first; a first row of 50 bytes stays pending.
\<close>

theorem pushRow_flushes_at_threshold_witness:
  "sizeFlushThreshold (options (fst loaded)) \<le> int (dataSize (fst loaded) + size' sample_row)
 \<and> data (fst loaded) < next_addr (snd loaded)
 \<and> pushRow sample_row (fst loaded) (snd loaded)
     = flush ((fst loaded)\<lparr>dataSize := dataSize (fst loaded) + size' sample_row\<rparr>)
         (array_push (data (fst loaded)) sample_row (snd loaded))
 \<and> (case pushRow sample_row (fst loaded) (snd loaded) of
       (c1, w1) \<Rightarrow> length (pending c1 w1) = 0 \<and> dataSize c1 = 0
                 \<and> inserts w1 = inserts (snd loaded)
                      @ [(datasetId (options (fst loaded)),
                          tableName_of (options (fst loaded))
                            (clock (snd loaded) (Suc (reads (snd loaded)))),
                          data (fst loaded))]
                 \<and> heap w1 (data (fst loaded)) = pending (fst loaded) (snd loaded) @ [sample_row])
 \<and> int (dataSize (fst fresh) + size' sample_row) < sizeFlushThreshold (options (fst fresh))
 \<and> pushRow sample_row (fst fresh) (snd fresh)
     = ((fst fresh)\<lparr>dataSize := dataSize (fst fresh) + size' sample_row\<rparr>,
        array_push (data (fst fresh)) sample_row (snd fresh))
 \<and> (case pushRow sample_row (fst fresh) (snd fresh) of
       (c1, w1) \<Rightarrow> pending c1 w1 = pending (fst fresh) (snd fresh) @ [sample_row]
                 \<and> inserts w1 = inserts (snd fresh)
                 \<and> lastFlushTimestamp w1 = lastFlushTimestamp (snd fresh)
                 \<and> reads w1 = reads (snd fresh))"
proof -
  have h1: "sizeFlushThreshold (options (fst loaded)) \<le> int (dataSize (fst loaded) + size' sample_row)"
    by (simp add: loaded_fields sample_options_def sample_row_def)
  have h2: "data (fst loaded) < next_addr (snd loaded)"
    by (simp add: loaded_fields)
  have h3: "int (dataSize (fst fresh) + size' sample_row) < sizeFlushThreshold (options (fst fresh))"
    by (simp add: fresh_fields sample_options_def sample_row_def)
  note a = pushRow_flushes_at_threshold [of "fst loaded" sample_row "snd loaded", THEN conjunct1, THEN mp, OF h1]
  note b = pushRow_flushes_at_threshold [of "fst fresh" sample_row "snd fresh", THEN conjunct2, THEN mp, OF h3]
  show ?thesis
    by (intro conjI h1 h2 h3 a [THEN conjunct1] a [THEN conjunct2, THEN mp, OF h2]
        b [THEN conjunct1] b [THEN conjunct2])
qed

text \<open>
  C6. A server-time-offset line with an optional minus sign and digits denoting
  \<open>n\<close>, of magnitude up to \<open>2 ^ 53\<close>, sets the shared offset to \<open>n\<close> whatever it was
  before; after any lines and ticks none of which is an offset line, the row of a line
  classified as an event carries the time \<open>(now + n) / 1000\<close>, \<open>now\<close> being the clock at
  that line.
\<close>

theorem offset_then_timestamp:
  assumes ds: "ds \<noteq> []" "\<forall>d\<in>set ds. in_cls Digit d" "rest = [] \<or> \<not> in_cls Digit (hd rest)"
    and sig: "(sig = [] \<and> n = dec_value ds) \<or> (sig = U ''-'' \<and> n = - dec_value ds)"
    and rng: "\<bar>n\<bar> \<le> 2 ^ 53"
  shows "collectLog (U ''event: /.info/serverTimeOffset:value:'' @ sig @ ds @ rest) c w
           = Inr (c, w\<lparr>serverTimeOffset := Exact n\<rparr>)
       \<and> (\<forall>es c1 w1 l m r w2.
             run es c (w\<lparr>serverTimeOffset := Exact n\<rparr>) = Inr (c1, w1)
           \<and> (\<forall>l'. Line l' \<in> set es \<longrightarrow> \<not> offset_line l')
           \<and> match l LOG_REGEX = Some m \<and> parse_row m w1 = Inr (Some r, w2)
           \<and> \<bar>clock w1 (reads w1)\<bar> \<le> 2 ^ 53 \<and> \<bar>clock w1 (reads w1) + n\<bar> \<le> 2 ^ 53
           \<longrightarrow> (\<exists>r' w3. collectLog l c1 w1 = Inr (pushRow r' c1 w3)
                    \<and> time r' = Some (Quot (Exact (clock w1 (reads w1) + n)) 1000)))"
proof (intro conjI allI impI)
  show "collectLog (U ''event: /.info/serverTimeOffset:value:'' @ sig @ ds @ rest) c w
           = Inr (c, w\<lparr>serverTimeOffset := Exact n\<rparr>)"
    using sig collectLog_offset [OF ds, of c w] rng
    by (auto simp: to_number_def U_def)
next
  fix es c1 w1 l m r w2
  assume a: "run es c (w\<lparr>serverTimeOffset := Exact n\<rparr>) = Inr (c1, w1)
           \<and> (\<forall>l'. Line l' \<in> set es \<longrightarrow> \<not> offset_line l')
           \<and> match l LOG_REGEX = Some m \<and> parse_row m w1 = Inr (Some r, w2)
           \<and> \<bar>clock w1 (reads w1)\<bar> \<le> 2 ^ 53 \<and> \<bar>clock w1 (reads w1) + n\<bar> \<le> 2 ^ 53"
  then have off: "serverTimeOffset w1 = Exact n"
    using run_keeps_offset [of es c "w\<lparr>serverTimeOffset := Exact n\<rparr>" c1 w1] by simp
  from a have m: "match l LOG_REGEX = Some m" and p: "parse_row m w1 = Inr (Some r, w2)" by simp_all
  let ?w3 = "w2\<lparr>reads := Suc (reads w1)\<rparr>"
  let ?r = "stamp r c1 (clock w1 (reads w1)) ?w3"
  have "collectLog l c1 w1 = Inr (pushRow ?r c1 ?w3)"
    by (rule collectLog_event [OF m p])
  moreover have "time ?r = Some (Quot (Exact (clock w1 (reads w1) + n)) 1000)"
    using parse_row_world [OF p] off a by (simp add: stamp_fields to_number_def)
  ultimately show "\<exists>r' w3. collectLog l c1 w1 = Inr (pushRow r' c1 w3)
                    \<and> time r' = Some (Quot (Exact (clock w1 (reads w1) + n)) 1000)"
    by blast
qed

text \<open>
  An offset of \<open>-42\<close>, then a line that is ignored and a tick, then a response from the
  server: its row carries the clock reading less 42, over 1000.
\<close>

theorem offset_then_timestamp_witness:
  \<open>collectLog (U ''event: /.info/serverTimeOffset:value:-42 ms'') (fst fresh) (snd fresh)
     = Inr (fst fresh, (snd fresh)\<lparr>serverTimeOffset := Exact (- 42)\<rparr>)
 \<and> run [Line (U ''p:3: sending''), Tick] (fst fresh) ((snd fresh)\<lparr>serverTimeOffset := Exact (- 42)\<rparr>)
     = Inr (fst fresh, (snd fresh)\<lparr>lastFlushTimestamp := 1793698201000,
                                     serverTimeOffset := Exact (- 42), reads := 2\<rparr>)
 \<and> \<not> offset_line (U ''p:3: sending'')
 \<and> (\<exists>r' w3. collectLog (U ''p:4: from server: {"r":2,"b":{"s":"ok"}}'') (fst fresh)
                 ((snd fresh)\<lparr>lastFlushTimestamp := 1793698201000,
                              serverTimeOffset := Exact (- 42), reads := 2\<rparr>)
               = Inr (pushRow r' (fst fresh) w3)
        \<and> time r' = Some (Quot (Exact 1793698201958) 1000))\<close>
proof -
  let ?c = "fst fresh"
  let ?w = "snd fresh"
  let ?w1 = "?w\<lparr>lastFlushTimestamp := 1793698201000, serverTimeOffset := Exact (- 42), reads := 2\<rparr>"
  let ?l = \<open>U ''p:4: from server: {"r":2,"b":{"s":"ok"}}''\<close>
  let ?m = \<open>[1 \<mapsto> U ''from server: '', 2 \<mapsto> U ''{"r":2,"b":{"s":"ok"}}'']\<close>
  let ?r = \<open>\<lparr>op = U ''r'', size' = 38, path = Some PROTOCOL_PATH, time = None, tag = None\<rparr>\<close>
  have ds: \<open>U ''42'' \<noteq> []\<close> \<open>\<forall>d\<in>set (U ''42''). in_cls Digit d\<close>
    \<open>U '' ms'' = [] \<or> \<not> in_cls Digit (hd (U '' ms''))\<close>
    by (simp_all add: U_def)
  have sg: \<open>(U ''-'' = [] \<and> - 42 = dec_value (U ''42'')) \<or> (U ''-'' = U ''-'' \<and> - 42 = - dec_value (U ''42''))\<close>
    by (simp add: U_def dec_value_def)
  have rng: "\<bar>- 42 :: int\<bar> \<le> 2 ^ 53" by simp
  note t = offset_then_timestamp [OF ds sg rng, of ?c ?w]
  have line: \<open>U ''event: /.info/serverTimeOffset:value:'' @ U ''-'' @ U ''42'' @ U '' ms''
                = U ''event: /.info/serverTimeOffset:value:-42 ms''\<close>
    by (simp add: U_def)
  have no: \<open>\<not> offset_line (U ''p:3: sending'')\<close>
    by (simp add: offset_line_def TIME_OFFSET_REGEX_def seqs_def match_anchored rmatch_lit U_def)
  have cl: \<open>collectLog (U ''p:3: sending'') ?c (?w\<lparr>serverTimeOffset := Exact (- 42)\<rparr>)
              = Inr (?c, ?w\<lparr>serverTimeOffset := Exact (- 42)\<rparr>)\<close>
    by (simp add: collectLog_def collectLog_try_def LOG_REGEX_def TIME_OFFSET_REGEX_def seqs_def
        match_anchored rmatch_lit U_def)
  have tick: "flushIfLate ?c (?w\<lparr>serverTimeOffset := Exact (- 42)\<rparr>) = (?c, ?w1)"
    by (simp add: flushIfLate_def Date_now_def flush_def fresh_fields sample_options_def
        sample_clock_def)
  have run: \<open>run [Line (U ''p:3: sending''), Tick] ?c (?w\<lparr>serverTimeOffset := Exact (- 42)\<rparr>)
               = Inr (?c, ?w1)\<close>
    by (simp add: cl tick)
  have es: \<open>\<forall>l'. Line l' \<in> set [Line (U ''p:3: sending''), Tick] \<longrightarrow> \<not> offset_line l'\<close>
    using no by simp
  have m: "match ?l LOG_REGEX = Some ?m"
    by (simp add: LOG_REGEX_def seqs_def match_anchored rmatch_lit U_def)
  have p: "parse_row ?m ?w1 = Inr (Some ?r, ?w1)"
    by (simp add: parse_row_def parseReadMessage_def read_messageType_def read_size_def
        READ_REGEX_def seqs_def match_anchored rmatch_lit U_def)
  have b: "\<bar>clock ?w1 (reads ?w1)\<bar> \<le> 2 ^ 53 \<and> \<bar>clock ?w1 (reads ?w1) + - 42\<bar> \<le> 2 ^ 53"
    by (simp add: fresh_fields sample_clock_def)
  have now: "clock ?w1 (reads ?w1) + - 42 = 1793698201958"
    by (simp add: fresh_fields sample_clock_def)
  from t [THEN conjunct2, rule_format, of "[Line (U ''p:3: sending''), Tick]" ?c ?w1 ?l ?m ?r ?w1]
    run es m p b
  have ev: "\<exists>r' w3. collectLog ?l ?c ?w1 = Inr (pushRow r' ?c w3)
              \<and> time r' = Some (Quot (Exact (clock ?w1 (reads ?w1) + - 42)) 1000)"
    by blast
  show ?thesis
    using t [THEN conjunct1] run no ev unfolding line now by (intro conjI)
qed

text \<open>
  C7. When less than the interval has elapsed since the last flush, \<open>flushIfLate\<close>
  only reads the clock: collector, buffer, sink, console and last-flush instant are as
  before. Otherwise it is one call of \<open>flush\<close>, and the last-flush instant becomes the
  clock reading of that flush, also when nothing is pending.
\<close>

theorem flushIfLate_interval:
  "(clock w (reads w) - lastFlushTimestamp w < forcedFlushInterval (options c) \<longrightarrow>
      flushIfLate c w = (c, w\<lparr>reads := Suc (reads w)\<rparr>))
 \<and> (forcedFlushInterval (options c) \<le> clock w (reads w) - lastFlushTimestamp w \<longrightarrow>
      flushIfLate c w = flush c (w\<lparr>reads := Suc (reads w)\<rparr>)
    \<and> lastFlushTimestamp (snd (flushIfLate c w)) = clock w (Suc (reads w))
    \<and> (pending c w = [] \<longrightarrow>
         flushIfLate c w = (c, w\<lparr>lastFlushTimestamp := clock w (Suc (reads w)),
                                 reads := Suc (Suc (reads w))\<rparr>)))"
  by (simp add: flushIfLate_def Date_now_def flush_fields flush_empty pending_def)

text \<open>
  On the samples: the first tick is late and flushes, also for the collector that holds
  nothing; the tick one second after that flush does nothing.
\<close>

theorem flushIfLate_interval_witness:
  "forcedFlushInterval (options (fst loaded))
     \<le> clock (snd loaded) (reads (snd loaded)) - lastFlushTimestamp (snd loaded)
 \<and> flushIfLate (fst loaded) (snd loaded)
     = flush (fst loaded) ((snd loaded)\<lparr>reads := Suc (reads (snd loaded))\<rparr>)
 \<and> lastFlushTimestamp (snd (flushIfLate (fst loaded) (snd loaded))) = 1793698201000
 \<and> pending (fst fresh) (snd loaded) = []
 \<and> flushIfLate (fst fresh) (snd loaded)
     = (fst fresh, (snd loaded)\<lparr>lastFlushTimestamp := 1793698201000, reads := 2\<rparr>)
 \<and> clock (snd (flushIfLate (fst fresh) (snd loaded)))
       (reads (snd (flushIfLate (fst fresh) (snd loaded))))
     - lastFlushTimestamp (snd (flushIfLate (fst fresh) (snd loaded)))
     < forcedFlushInterval (options (fst loaded))
 \<and> flushIfLate (fst loaded) (snd (flushIfLate (fst fresh) (snd loaded)))
     = (fst loaded, (snd loaded)\<lparr>lastFlushTimestamp := 1793698201000, reads := 3\<rparr>)"
proof -
  let ?w = "snd loaded"
  have late: "forcedFlushInterval (options (fst loaded)) \<le> clock ?w (reads ?w) - lastFlushTimestamp ?w"
    by (simp add: loaded_fields sample_options_def sample_clock_def)
  have late': "forcedFlushInterval (options (fst fresh)) \<le> clock ?w (reads ?w) - lastFlushTimestamp ?w"
    by (simp add: loaded_fields fresh_fields sample_options_def sample_clock_def)
  have empty: "pending (fst fresh) ?w = []"
    by (simp add: pending_def loaded_fields fresh_fields)
  note a = flushIfLate_interval [of ?w "fst loaded", THEN conjunct2, THEN mp, OF late]
  note b = flushIfLate_interval [of ?w "fst fresh", THEN conjunct2, THEN mp, OF late']
  have b3: "flushIfLate (fst fresh) ?w
      = (fst fresh, ?w\<lparr>lastFlushTimestamp := 1793698201000, reads := 2\<rparr>)"
    using b [THEN conjunct2, THEN conjunct2, THEN mp, OF empty]
    by (simp add: loaded_fields sample_clock_def)
  let ?w2 = "?w\<lparr>lastFlushTimestamp := 1793698201000, reads := 2\<rparr>"
  have early: "clock ?w2 (reads ?w2) - lastFlushTimestamp ?w2 < forcedFlushInterval (options (fst loaded))"
    by (simp add: loaded_fields sample_options_def sample_clock_def)
  have c: "flushIfLate (fst loaded) ?w2 = (fst loaded, ?w\<lparr>lastFlushTimestamp := 1793698201000, reads := 3\<rparr>)"
    using flushIfLate_interval [of ?w2 "fst loaded", THEN conjunct1, THEN mp, OF early]
    by simp
  have a2: "lastFlushTimestamp (snd (flushIfLate (fst loaded) ?w)) = 1793698201000"
    using a [THEN conjunct2, THEN conjunct1] by (simp add: loaded_fields sample_clock_def)
  show ?thesis
    using late a [THEN conjunct1] a2 empty b3 early c by simp
qed

text \<open>
  C8. For every line, \<open>collectLog\<close> returns normally; a fault of its \<^verbatim>\<open>try\<close> block is
  written to the console and goes no further.
\<close>

theorem collectLog_never_throws:
  "(\<exists>c1 w1. collectLog message c w = Inr (c1, w1))
 \<and> (\<forall>e. collectLog_try message c w = Inl e \<longrightarrow>
        collectLog message c w
          = Inr (c, console_log [S (U ''Unexpected error while collecting Firebase bandwidth:''),
                                 Stack e] w))"
  by (cases "collectLog_try message c w") (auto simp: collectLog_def)

text \<open>
  A payload that fails the write pattern: the fault of the \<^verbatim>\<open>try\<close> block ends on the
  console.
\<close>

theorem collectLog_never_throws_witness:
  \<open>collectLog_try (U ''p:9: {"t":"c"}'') (fst fresh) (snd fresh) = Inl TypeError
 \<and> collectLog (U ''p:9: {"t":"c"}'') (fst fresh) (snd fresh)
     = Inr (fst fresh,
            console_log [S (U ''Unexpected error while collecting Firebase bandwidth:''),
                         Stack TypeError] (snd fresh))\<close>
proof -
  have h: \<open>collectLog_try (U ''p:9: {"t":"c"}'') (fst fresh) (snd fresh) = Inl TypeError\<close>
    by (simp add: collectLog_try_def parse_row_def parseWriteMessage_def LOG_REGEX_def
        WRITE_REGEX_def seqs_def match_anchored rmatch_lit U_def)
  show ?thesis
    by (intro conjI h collectLog_never_throws [THEN conjunct2, rule_format, OF h])
qed

text \<open>
  C9 (the code departs from the claim). The first capture of the read pattern never has
  the trailing space the source compares it with, so the message type is the second
  capture also for the origin \<^verbatim>\<open>from server:\<close>; on the prefix \<^verbatim>\<open>from server: d\<close> it is
  \<^verbatim>\<open>d\<close>, not the empty string.
\<close>

theorem from_server_messageType:
  \<open>match (U ''from server: d'') READ_REGEX = Some [1 \<mapsto> U ''from server:'', 2 \<mapsto> U ''d'']
 \<and> read_messageType [1 \<mapsto> U ''from server:'', 2 \<mapsto> U ''d''] = Some (U ''d'')
 \<and> parseReadMessage (U ''from server: d'') (U ''{"p":"x"}'') w
     = (Some \<lparr>op = U ''r'', size' = 33, path = Some (U ''/x''), time = None, tag = None\<rparr>, w)\<close>
  by (simp add: parseReadMessage_def read_messageType_def read_size_def READ_REGEX_def
      READ_PATH_REGEX_def seqs_def match_anchored rmatch_lit U_def)

text \<open>
  C10. The last-flush instant is one variable of the world, not of a collector: a
  flush of one collector sets it, and the tick of any other collector that comes less
  than that collector's interval later does nothing, whatever that collector holds.
\<close>

theorem lastFlushTimestamp_shared:
  "lastFlushTimestamp (snd (flush c1 w)) = clock w (reads w)
 \<and> (clock w (reads (snd (flush c1 w))) - clock w (reads w) < forcedFlushInterval (options c2) \<longrightarrow>
      flushIfLate c2 (snd (flush c1 w))
        = (c2, (snd (flush c1 w))\<lparr>reads := Suc (reads (snd (flush c1 w)))\<rparr>))"
  by (simp add: flushIfLate_def Date_now_def flush_fields)

text \<open>
  On the samples: the second collector holds a row and has never flushed, so its tick
  alone would call the sink; after a flush of the first collector, which holds
  nothing, the same tick one second later does nothing.
\<close>

theorem lastFlushTimestamp_shared_witness:
  "pending (fst loaded) (snd loaded) = [sample_row]
 \<and> inserts (snd (flushIfLate (fst loaded) (snd loaded))) \<noteq> []
 \<and> lastFlushTimestamp (snd (flush (fst fresh) (snd loaded))) = 1793698200000
 \<and> clock (snd loaded) (reads (snd (flush (fst fresh) (snd loaded))))
      - clock (snd loaded) (reads (snd loaded)) < forcedFlushInterval (options (fst loaded))
 \<and> flushIfLate (fst loaded) (snd (flush (fst fresh) (snd loaded)))
     = (fst loaded, (snd loaded)\<lparr>lastFlushTimestamp := 1793698200000, reads := 2\<rparr>)"
proof -
  let ?w = "snd loaded"
  have fl: "flush (fst fresh) ?w = (fst fresh, ?w\<lparr>lastFlushTimestamp := 1793698200000, reads := 1\<rparr>)"
    by (simp add: flush_empty loaded_fields fresh_fields sample_clock_def)
  have hyp: "clock ?w (reads (snd (flush (fst fresh) ?w))) - clock ?w (reads ?w)
               < forcedFlushInterval (options (fst loaded))"
    by (simp add: fl loaded_fields sample_options_def sample_clock_def)
  note t = lastFlushTimestamp_shared [of "fst fresh" ?w "fst loaded"]
  have t1: "lastFlushTimestamp (snd (flush (fst fresh) ?w)) = 1793698200000"
    using t [THEN conjunct1] by (simp add: loaded_fields sample_clock_def)
  have t2: "flushIfLate (fst loaded) (snd (flush (fst fresh) ?w))
      = (fst loaded, ?w\<lparr>lastFlushTimestamp := 1793698200000, reads := 2\<rparr>)"
    using t [THEN conjunct2, THEN mp, OF hyp] by (simp add: fl)
  have p: "pending (fst loaded) ?w = [sample_row]"
    by (simp add: pending_def loaded_fields)
  have alone: "inserts (snd (flushIfLate (fst loaded) ?w)) \<noteq> []"
    by (simp add: flushIfLate_def Date_now_def flush_def takeData_def new_array_def Let_def
        table_insert_def console_log_def loaded_fields sample_options_def sample_clock_def)
  show ?thesis using p alone t1 hyp t2 by simp
qed

end
